theory Spec2Isabelle
  imports Main "HOL-Library.Word"
begin

unbundle bit_operations_syntax

section \<open>Bytes, strings and exceptions\<close>

text \<open>
  Python \<open>bytes\<close> are lists of 8-bit words, Python \<open>str\<close> values are lists of code
  points, and every exception the code can raise is a value of \<open>error\<close>.
  \<open>ValueError\<close> also stands for its subclass \<open>UnicodeDecodeError\<close>, since the
  handlers of the source catch both alike.
\<close>

type_synonym byte = "8 word"
type_synonym bytes = "byte list"
type_synonym pystr = "nat list"

datatype error = ValueError | KeyError | OverflowError | StructError | OSError

section \<open>The dictionary codec (lzw.py)\<close>

subsection \<open>LZWBase\<close>

record lzw =
  dictionary :: "bytes \<rightharpoonup> nat"
  reverse_dictionary :: "nat \<rightharpoonup> bytes"
  next_code :: nat

text \<open>
  \<open>reset_dictionary\<close>: the two comprehensions over \<open>range(256)\<close> map every one-byte
  string to its value and back.
\<close>

definition reset_dictionary :: lzw where
  "reset_dictionary =
     \<lparr>dictionary = (\<lambda>k. case k of [b] \<Rightarrow> Some (unat b) | _ \<Rightarrow> None),
      reverse_dictionary = (\<lambda>i. if i < 256 then Some [word_of_nat i] else None),
      next_code = 256\<rparr>"

definition can_add_to_dictionary :: "lzw \<Rightarrow> bool" where
  "can_add_to_dictionary st \<longleftrightarrow> next_code st < 65536"

definition add_to_dictionary :: "lzw \<Rightarrow> bytes \<Rightarrow> bytes \<Rightarrow> lzw" where
  "add_to_dictionary st key val =
     (if can_add_to_dictionary st
      then st\<lparr>dictionary := (dictionary st)(key \<mapsto> next_code st),
              reverse_dictionary := (reverse_dictionary st)(next_code st \<mapsto> val),
              next_code := next_code st + 1\<rparr>
      else st)"

subsection \<open>LZWCompressor\<close>

text \<open>
  The \<open>for symbol in data\<close> loop of \<open>encode\<close>, with the loop variables \<open>string\<close> and
  \<open>encoded_data\<close> as accumulators. \<open>self.dictionary[string]\<close> raises \<open>KeyError\<close> on a
  missing key.
\<close>

fun encode_loop :: "lzw \<Rightarrow> bytes \<Rightarrow> nat list \<Rightarrow> bytes \<Rightarrow> error + (lzw \<times> bytes \<times> nat list)" where
  "encode_loop st string encoded_data [] = Inr (st, string, encoded_data)"
| "encode_loop st string encoded_data (symbol # data) =
     (let string_plus_symbol = string @ [symbol] in
      if dictionary st string_plus_symbol \<noteq> None
      then encode_loop st string_plus_symbol encoded_data data
      else (case dictionary st string of
              None \<Rightarrow> Inl KeyError
            | Some code \<Rightarrow>
                encode_loop (add_to_dictionary st string_plus_symbol string_plus_symbol)
                  [symbol] (encoded_data @ [code]) data))"

text \<open>\<open>code.to_bytes(2, byteorder='big')\<close> raises \<open>OverflowError\<close> from 65536 on.\<close>

fun to_bytes :: "nat list \<Rightarrow> error + bytes" where
  "to_bytes [] = Inr []"
| "to_bytes (code # encoded_data) =
     (if code < 65536
      then (case to_bytes encoded_data of
              Inl e \<Rightarrow> Inl e
            | Inr compressed_bytes \<Rightarrow>
                Inr (word_of_nat (code div 256) # word_of_nat (code mod 256) # compressed_bytes))
      else Inl OverflowError)"

definition LZWCompressor_encode :: "bytes \<Rightarrow> error + bytes" where
  "LZWCompressor_encode data =
     (case encode_loop reset_dictionary [] [] data of
        Inl e \<Rightarrow> Inl e
      | Inr (st, string, encoded_data) \<Rightarrow>
          if string \<noteq> []
          then (case dictionary st string of
                  None \<Rightarrow> Inl KeyError
                | Some code \<Rightarrow> to_bytes (encoded_data @ [code]))
          else to_bytes encoded_data)"

subsection \<open>LZWDecompressor\<close>

text \<open>
  \<open>_from_bytes\<close> slices the input at the even offsets; the slice at the last offset of an
  input of odd length holds one byte, and \<open>int.from_bytes\<close> reads it as it is.
\<close>

fun from_bytes :: "bytes \<Rightarrow> nat list" where
  "from_bytes [] = []"
| "from_bytes [b] = [unat b]"
| "from_bytes (hi # lo # encoded_data) = (unat hi * 256 + unat lo) # from_bytes encoded_data"

definition get_entry :: "lzw \<Rightarrow> nat \<Rightarrow> bytes \<Rightarrow> error + bytes" where
  "get_entry st code string =
     (case reverse_dictionary st code of
        Some entry \<Rightarrow> Inr entry
      | None \<Rightarrow> if code = next_code st then Inr (string @ take 1 string) else Inl ValueError)"

fun decode_loop :: "lzw \<Rightarrow> bytes \<Rightarrow> bytes \<Rightarrow> nat list \<Rightarrow> error + (lzw \<times> bytes)" where
  "decode_loop st string decoded_data [] = Inr (st, decoded_data)"
| "decode_loop st string decoded_data (code # codes) =
     (case get_entry st code string of
        Inl e \<Rightarrow> Inl e
      | Inr entry \<Rightarrow>
          decode_loop (add_to_dictionary st (string @ take 1 entry) (string @ take 1 entry))
            entry (decoded_data @ entry) codes)"

text \<open>
  \<open>decode\<close>: no code at all is a \<open>ValueError\<close>; the first code is looked up with
  \<open>self.reverse_dictionary[codes.pop(0)]\<close>, a \<open>KeyError\<close> when it is missing.
\<close>

definition LZWDecompressor_decode :: "bytes \<Rightarrow> error + bytes" where
  "LZWDecompressor_decode encoded_data =
     (case from_bytes encoded_data of
        [] \<Rightarrow> Inl ValueError
      | code # codes \<Rightarrow>
          (case reverse_dictionary reset_dictionary code of
             None \<Rightarrow> Inl KeyError
           | Some string \<Rightarrow>
               (case decode_loop reset_dictionary string string codes of
                  Inl e \<Rightarrow> Inl e
                | Inr (st, decoded_data) \<Rightarrow> Inr decoded_data)))"

subsection \<open>Invariants of the dictionary state\<close>

text \<open>
  \<open>lzw_inv\<close> is the bound on the next free code. \<open>enc_ok\<close> adds what the encoder
  relies on: the 256 one-byte strings keep their codes, the empty string has none, every
  code handed out is below the next free one, and no code is handed out twice.
\<close>

definition lzw_inv :: "lzw \<Rightarrow> bool" where
  "lzw_inv st \<longleftrightarrow> 256 \<le> next_code st \<and> next_code st \<le> 65536"

definition enc_ok :: "lzw \<Rightarrow> bool" where
  "enc_ok st \<longleftrightarrow> lzw_inv st
     \<and> (\<forall>b. dictionary st [b] = Some (unat b))
     \<and> dictionary st [] = None
     \<and> (\<forall>k c. dictionary st k = Some c \<longrightarrow> c < next_code st)
     \<and> (\<forall>k k' c. dictionary st k = Some c \<longrightarrow> dictionary st k' = Some c \<longrightarrow> k = k')"

text \<open>
  \<open>lzw_sync est dst s w\<close> relates the encoder state \<open>est\<close>, holding the current match
  \<open>w\<close>, to the decoder state \<open>dst\<close> whose last emitted string is \<open>s\<close>: the decoder
  knows every string whose code is below its next code, and is one entry behind the
  encoder (the entry \<open>s\<close> followed by the first byte of \<open>w\<close>) until both are full.
\<close>

definition lzw_sync :: "lzw \<Rightarrow> lzw \<Rightarrow> bytes \<Rightarrow> bytes \<Rightarrow> bool" where
  "lzw_sync est dst s w \<longleftrightarrow> enc_ok est \<and> lzw_inv dst \<and> s \<noteq> [] \<and> w \<noteq> []
     \<and> dictionary est w \<noteq> None
     \<and> (\<forall>k. next_code dst \<le> k \<longrightarrow> reverse_dictionary dst k = None)
     \<and> (\<forall>x k. dictionary est x = Some k \<longrightarrow> k < next_code dst
            \<longrightarrow> reverse_dictionary dst k = Some x)
     \<and> (if next_code dst < 65536
         then next_code est = next_code dst + 1
            \<and> dictionary est (s @ take 1 w) = Some (next_code dst)
         else next_code est = 65536)"

section \<open>Library functions the archive handler calls\<close>

subsection \<open>zlib.crc32\<close>

text \<open>
  \<open>zlib.crc32\<close> is the CRC-32 of ISO 3309: bit-reflected, polynomial \<open>0xEDB88320\<close>,
  initial value and final complement \<open>0xFFFFFFFF\<close>. The result is already below
  \<open>2 ^ 32\<close>, so the mask \<open>& 0xFFFFFFFF\<close> of the source changes nothing.
\<close>

definition crc32_shift :: "32 word \<Rightarrow> 32 word" where
  "crc32_shift c = (if bit c 0 then drop_bit 1 c XOR 0xEDB88320 else drop_bit 1 c)"

definition crc32_update :: "32 word \<Rightarrow> byte \<Rightarrow> 32 word" where
  "crc32_update c b = (crc32_shift ^^ 8) (c XOR ucast b)"

definition zlib_crc32 :: "bytes \<Rightarrow> nat" where
  "zlib_crc32 data = unat (foldl crc32_update 0xFFFFFFFF data XOR 0xFFFFFFFF)"

subsection \<open>struct.pack and struct.unpack with format \<open><I I I I I\<close>\<close>

definition pack_u32 :: "nat \<Rightarrow> bytes" where
  "pack_u32 n = [word_of_nat n, word_of_nat (n div 256), word_of_nat (n div 65536),
                 word_of_nat (n div 16777216)]"

definition unpack_u32 :: "bytes \<Rightarrow> nat" where
  "unpack_u32 bs = foldr (\<lambda>b acc. unat b + 256 * acc) bs 0"

text \<open>\<open>struct.pack\<close> raises \<open>struct.error\<close> on a value that does not fit 32 bits.\<close>

definition struct_pack :: "nat \<times> nat \<times> nat \<times> nat \<times> nat \<Rightarrow> error + bytes" where
  "struct_pack v =
     (case v of (a, b, c, d, e) \<Rightarrow>
        if a < 2 ^ 32 \<and> b < 2 ^ 32 \<and> c < 2 ^ 32 \<and> d < 2 ^ 32 \<and> e < 2 ^ 32
        then Inr (pack_u32 a @ pack_u32 b @ pack_u32 c @ pack_u32 d @ pack_u32 e)
        else Inl StructError)"

text \<open>\<open>struct.unpack\<close> raises \<open>struct.error\<close> unless the buffer holds exactly 20 bytes.\<close>

definition struct_unpack :: "bytes \<Rightarrow> error + (nat \<times> nat \<times> nat \<times> nat \<times> nat)" where
  "struct_unpack raw =
     (if length raw = 20
      then Inr (unpack_u32 (take 4 raw), unpack_u32 (take 4 (drop 4 raw)),
                unpack_u32 (take 4 (drop 8 raw)), unpack_u32 (take 4 (drop 12 raw)),
                unpack_u32 (take 4 (drop 16 raw)))
      else Inl StructError)"

subsection \<open>bytes.decode('utf-8')\<close>

text \<open>
  The strict UTF-8 decoder: shortest forms only, no surrogates, nothing above
  \<open>U+10FFFF\<close>. Ill-formed input raises \<open>UnicodeDecodeError\<close>, a \<open>ValueError\<close>.
\<close>

definition utf8_cont :: "byte \<Rightarrow> bool" where
  "utf8_cont b \<longleftrightarrow> 0x80 \<le> b \<and> b \<le> 0xBF"

definition utf8_low :: "byte \<Rightarrow> nat" where
  "utf8_low b = unat b mod 64"

fun utf8_decode :: "bytes \<Rightarrow> error + pystr" where
  "utf8_decode [] = Inr []"
| "utf8_decode (b0 # bs) =
     (if b0 < 0x80 then
        (case utf8_decode bs of Inl e \<Rightarrow> Inl e | Inr cs \<Rightarrow> Inr (unat b0 # cs))
      else if 0xC2 \<le> b0 \<and> b0 \<le> 0xDF then
        (case bs of
           b1 # r \<Rightarrow>
             if utf8_cont b1
             then (case utf8_decode r of Inl e \<Rightarrow> Inl e
                   | Inr cs \<Rightarrow> Inr (((unat b0 mod 32) * 64 + utf8_low b1) # cs))
             else Inl ValueError
         | _ \<Rightarrow> Inl ValueError)
      else if 0xE0 \<le> b0 \<and> b0 \<le> 0xEF then
        (case bs of
           b1 # b2 # r \<Rightarrow>
             if utf8_cont b1 \<and> utf8_cont b2 \<and> (b0 = 0xE0 \<longrightarrow> 0xA0 \<le> b1)
                \<and> (b0 = 0xED \<longrightarrow> b1 \<le> 0x9F)
             then (case utf8_decode r of Inl e \<Rightarrow> Inl e
                   | Inr cs \<Rightarrow>
                       Inr (((unat b0 mod 16) * 4096 + utf8_low b1 * 64 + utf8_low b2) # cs))
             else Inl ValueError
         | _ \<Rightarrow> Inl ValueError)
      else if 0xF0 \<le> b0 \<and> b0 \<le> 0xF4 then
        (case bs of
           b1 # b2 # b3 # r \<Rightarrow>
             if utf8_cont b1 \<and> utf8_cont b2 \<and> utf8_cont b3 \<and> (b0 = 0xF0 \<longrightarrow> 0x90 \<le> b1)
                \<and> (b0 = 0xF4 \<longrightarrow> b1 \<le> 0x8F)
             then (case utf8_decode r of Inl e \<Rightarrow> Inl e
                   | Inr cs \<Rightarrow>
                       Inr (((unat b0 mod 8) * 262144 + utf8_low b1 * 4096 + utf8_low b2 * 64
                             + utf8_low b3) # cs))
             else Inl ValueError
         | _ \<Rightarrow> Inl ValueError)
      else Inl ValueError)"

subsection \<open>os.path (POSIX)\<close>

text \<open>
  \<open>str.rfind\<close> gives the last index of a character, or \<open>-1\<close>; \<open>s[:k]\<close> counts a negative
  \<open>k\<close> from the end. \<open>basename\<close>, \<open>splitext\<close> and \<open>join\<close> are those of \<open>posixpath\<close>.
\<close>

definition slash :: nat where "slash = 47"
definition dot :: nat where "dot = 46"

definition rfind :: "nat \<Rightarrow> pystr \<Rightarrow> int" where
  "rfind c p =
     (if c \<in> set p then int (length p) - 1 - int (length (takeWhile (\<lambda>x. x \<noteq> c) (rev p)))
      else - 1)"

definition slice_to :: "'a list \<Rightarrow> int \<Rightarrow> 'a list" where
  "slice_to xs k = (if 0 \<le> k then take (nat k) xs else take (nat (int (length xs) + k)) xs)"

definition basename :: "pystr \<Rightarrow> pystr" where
  "basename p = drop (nat (rfind slash p + 1)) p"

definition splitext :: "pystr \<Rightarrow> pystr \<times> pystr" where
  "splitext p =
     (let sepIndex = rfind slash p; dotIndex = rfind dot p in
      if dotIndex > sepIndex
         \<and> list_ex (\<lambda>filenameIndex. p ! filenameIndex \<noteq> dot) [nat (sepIndex + 1) ..< nat dotIndex]
      then (take (nat dotIndex) p, drop (nat dotIndex) p)
      else (p, []))"

definition path_join :: "pystr \<Rightarrow> pystr \<Rightarrow> pystr" where
  "path_join a b =
     (if b \<noteq> [] \<and> hd b = slash then b
      else if a = [] \<or> last a = slash then a @ b
      else a @ [slash] @ b)"

subsection \<open>Files\<close>

text \<open>
  A file opened for reading is its content and a position. \<open>read(n)\<close> returns the bytes
  that are there, at most \<open>n\<close> of them, and raises nothing at the end of the file. The
  file system maps a path to the content of the file; \<open>stdin\<close> and \<open>stdout\<close> are the two
  standard streams. Directories and permissions are not modelled: creating and writing a
  file always succeeds.
\<close>

record rfile =
  content :: bytes
  pos :: nat

definition file_read :: "nat \<Rightarrow> rfile \<Rightarrow> bytes \<times> rfile" where
  "file_read n f =
     (let chunk = take n (drop (pos f) (content f)) in (chunk, f\<lparr>pos := pos f + length chunk\<rparr>))"

definition file_tell :: "rfile \<Rightarrow> nat" where
  "file_tell f = pos f"

definition file_seek :: "nat \<Rightarrow> rfile \<Rightarrow> rfile" where
  "file_seek p f = f\<lparr>pos := p\<rparr>"

record world =
  files :: "pystr \<rightharpoonup> bytes"
  stdin :: bytes
  stdout :: bytes

definition dash :: pystr where "dash = [45]"

text \<open>\<open>open(name, 'rb')\<close>; a missing file is an \<open>OSError\<close>.\<close>

definition open_rb :: "world \<Rightarrow> pystr \<Rightarrow> error + rfile" where
  "open_rb w name =
     (case files w name of
        None \<Rightarrow> Inl OSError
      | Some c \<Rightarrow> Inr \<lparr>content = c, pos = 0\<rparr>)"

section \<open>The archive handler (config.py, rch.py)\<close>

definition RCH_MAGIC :: bytes where "RCH_MAGIC = [0x46, 0x52, 0x30, 0x31]"
definition BLOCK_MAGIC :: bytes where "BLOCK_MAGIC = [0x46, 0x5A]"
definition ENCODING_XOR255_LZW :: nat where "ENCODING_XOR255_LZW = 0"
definition ENCODING_XOR255 :: nat where "ENCODING_XOR255 = 1"
definition ENCODING_BZIP2 :: nat where "ENCODING_BZIP2 = 2"

text \<open>
  The handler object. The two \<open>bz2\<close> functions are parameters of the model:
  \<open>bz2_compress level data\<close> is \<open>BZ2Compressor(level).compress(data) + flush()\<close>, and
  \<open>bz2_decompress data\<close> is \<open>None\<close> when \<open>bz2.decompress\<close> raises.
\<close>

record rch =
  encoding_algorithm :: nat
  compression_level :: int
  force :: bool

definition xor255 :: "bytes \<Rightarrow> bytes" where
  "xor255 data = map (\<lambda>b. b XOR 255) data"

text \<open>\<open>read_rch_header\<close>: the magic is checked, the other 24 bytes are skipped.\<close>

definition read_rch_header :: "rfile \<Rightarrow> error + rfile" where
  "read_rch_header rch_file =
     (case file_read 4 rch_file of
        (header, f1) \<Rightarrow>
          if header \<noteq> RCH_MAGIC then Inl ValueError else Inr (snd (file_read (4 + 4 + 16) f1)))"

text \<open>
  \<open>read_file_block_header\<close> returns \<open>(filename, header[2], header[3], header[4], header[1])\<close>,
  that is the name, the payload length, the stored checksum, the algorithm id and the
  reserved field (used as time stamp), with the file advanced.
\<close>

definition read_file_block_header ::
    "rfile \<Rightarrow> error + ((pystr \<times> nat \<times> nat \<times> nat \<times> nat) \<times> rfile)" where
  "read_file_block_header rch_file =
     (case file_read 2 rch_file of
        (block_magic, f1) \<Rightarrow>
          if block_magic \<noteq> BLOCK_MAGIC then Inl ValueError
          else (case file_read 40 f1 of
                  (name_field, f2) \<Rightarrow>
                    (case utf8_decode (takeWhile (\<lambda>b. b \<noteq> 0) name_field) of
                       Inl e \<Rightarrow> Inl e
                     | Inr filename \<Rightarrow>
                         (case file_read (4 * 5) f2 of
                            (raw, f3) \<Rightarrow>
                              (case struct_unpack raw of
                                 Inl e \<Rightarrow> Inl e
                               | Inr (h0, h1, h2, h3, h4) \<Rightarrow>
                                   Inr ((filename, h2, h3, h4, h1), f3))))))"

text \<open>
  \<open>decode_data\<close>: whatever the decoders raise leaves as a \<open>ValueError\<close> (the three
  \<open>except\<close> clauses re-raise it or wrap the exception in one).
\<close>

definition decode_data :: "(bytes \<Rightarrow> bytes option) \<Rightarrow> bytes \<Rightarrow> nat \<Rightarrow> error + bytes" where
  "decode_data bz2_decompress file_data encoding_algo =
     (if encoding_algo = ENCODING_BZIP2 then
        (case bz2_decompress file_data of None \<Rightarrow> Inl ValueError | Some result \<Rightarrow> Inr result)
      else if encoding_algo = ENCODING_XOR255_LZW then
        (case LZWDecompressor_decode file_data of
           Inl e \<Rightarrow> Inl ValueError
         | Inr lzw_data \<Rightarrow> Inr (xor255 lzw_data))
      else if encoding_algo = ENCODING_XOR255 then Inr (xor255 file_data)
      else Inl ValueError)"

definition check_crc :: "bytes \<Rightarrow> nat \<Rightarrow> error + bool" where
  "check_crc data crc32_stored =
     (let crc32_computed = zlib_crc32 data; result = (crc32_computed = crc32_stored) in
      if \<not> result then Inl ValueError else Inr result)"

text \<open>\<open>BZ2Compressor\<close> raises \<open>ValueError\<close> unless the level is between 1 and 9.\<close>

definition encode_file_data :: "(int \<Rightarrow> bytes \<Rightarrow> bytes) \<Rightarrow> rch \<Rightarrow> bytes \<Rightarrow> error + bytes" where
  "encode_file_data bz2_compress self file_data =
     (if encoding_algorithm self = ENCODING_BZIP2 then
        (if 1 \<le> compression_level self \<and> compression_level self \<le> 9
         then Inr (bz2_compress (compression_level self) file_data)
         else Inl ValueError)
      else if encoding_algorithm self = ENCODING_XOR255_LZW then
        LZWCompressor_encode (xor255 file_data)
      else if encoding_algorithm self = ENCODING_XOR255 then Inr (xor255 file_data)
      else Inl ValueError)"

definition calculate_crc32 :: "rch \<Rightarrow> bytes \<Rightarrow> bytes \<Rightarrow> nat" where
  "calculate_crc32 self file_data encoded_data =
     (if encoding_algorithm self = ENCODING_BZIP2 then zlib_crc32 file_data
      else zlib_crc32 encoded_data)"

text \<open>\<open>bytes.ljust(40, b'\x00')\<close> pads a shorter name and leaves a longer one as it is.\<close>

definition ljust :: "nat \<Rightarrow> byte \<Rightarrow> bytes \<Rightarrow> bytes" where
  "ljust width fill s = s @ replicate (width - length s) fill"

text \<open>
  \<open>write_block_to_file\<close>, with the sink as the bytes written so far. The log message
  in front of the writes decodes the name with \<open>filename.decode('utf-8')\<close>, so a name
  that is not UTF-8 raises \<open>UnicodeDecodeError\<close> before anything is written. When
  \<open>struct.pack\<close> raises, the magic and the name field are already written; the model
  then gives the error alone.
\<close>

definition write_block_to_file :: "rch \<Rightarrow> bytes \<Rightarrow> bytes \<Rightarrow> bytes \<Rightarrow> nat \<Rightarrow> error + bytes" where
  "write_block_to_file self rch_file filename encoded_data crc32 =
     (case utf8_decode filename of
        Inl e \<Rightarrow> Inl e
      | Inr logged_name \<Rightarrow>
          (case struct_pack (1, 0, length encoded_data, crc32, encoding_algorithm self) of
             Inl e \<Rightarrow> Inl e
           | Inr packed \<Rightarrow>
               Inr (rch_file @ BLOCK_MAGIC @ ljust 40 0 filename @ packed @ encoded_data)))"

definition write_rch_header :: "bytes \<Rightarrow> bytes" where
  "write_rch_header rch_file =
     rch_file @ RCH_MAGIC @ pack_u32 1 @ pack_u32 0 @ replicate 16 0"

text \<open>
  \<open>_write_file_block\<close>. Its first statement is a log message that decodes the name, so
  a name that is not UTF-8 raises \<open>UnicodeDecodeError\<close> before the payload is encoded.
  Of the result record only the size and the checksum are kept; the other fields are
  constants or the decoded name.
\<close>

definition write_file_block ::
    "(int \<Rightarrow> bytes \<Rightarrow> bytes) \<Rightarrow> rch \<Rightarrow> bytes \<Rightarrow> bytes \<Rightarrow> bytes \<Rightarrow> error + (bytes \<times> nat \<times> nat)" where
  "write_file_block bz2_compress self rch_file filename file_data =
     (case utf8_decode filename of
        Inl e \<Rightarrow> Inl e
      | Inr logged_name \<Rightarrow>
          (case encode_file_data bz2_compress self file_data of
             Inl e \<Rightarrow> Inl e
           | Inr encoded_data \<Rightarrow>
               (let crc32 = calculate_crc32 self file_data encoded_data in
                case write_block_to_file self rch_file filename encoded_data crc32 of
                  Inl e \<Rightarrow> Inl e
                | Inr rch_file' \<Rightarrow> Inr (rch_file', length encoded_data, crc32))))"

text \<open>
  The loop of \<open>pack_rch\<close> over the entries, each already read and named (the UTF-8 bytes of
  the base name of the input path, or of the name given for the standard input).
\<close>

fun pack_blocks ::
    "(int \<Rightarrow> bytes \<Rightarrow> bytes) \<Rightarrow> rch \<Rightarrow> bytes \<Rightarrow> (bytes \<times> bytes) list \<Rightarrow> error + bytes" where
  "pack_blocks bz2_compress self rch_file [] = Inr rch_file"
| "pack_blocks bz2_compress self rch_file ((filename, file_data) # input_files) =
     (case write_file_block bz2_compress self rch_file filename file_data of
        Inl e \<Rightarrow> Inl e
      | Inr (rch_file', r) \<Rightarrow> pack_blocks bz2_compress self rch_file' input_files)"

text \<open>
  \<open>pack_rch\<close>: mode \<open>'ab'\<close> starts from the bytes of the existing file, mode \<open>'wb'\<close> from
  the empty file and the header. \<open>inject_files\<close> is \<open>pack_rch\<close> with \<open>append=True\<close>.
\<close>

definition pack_rch ::
    "(int \<Rightarrow> bytes \<Rightarrow> bytes) \<Rightarrow> rch \<Rightarrow> bytes \<Rightarrow> (bytes \<times> bytes) list \<Rightarrow> bool \<Rightarrow> error + bytes" where
  "pack_rch bz2_compress self existing input_files append_mode =
     pack_blocks bz2_compress self (if append_mode then existing else write_rch_header [])
       input_files"

definition inject_files ::
    "(int \<Rightarrow> bytes \<Rightarrow> bytes) \<Rightarrow> rch \<Rightarrow> bytes \<Rightarrow> (bytes \<times> bytes) list \<Rightarrow> error + bytes" where
  "inject_files bz2_compress self existing input_files =
     pack_rch bz2_compress self existing input_files True"

definition process_file_data ::
    "(bytes \<Rightarrow> bytes option) \<Rightarrow> bytes \<Rightarrow> nat \<Rightarrow> nat \<Rightarrow> error + (bytes \<times> bool)" where
  "process_file_data bz2_decompress file_data encoding_algo crc32_stored =
     (case decode_data bz2_decompress file_data encoding_algo of
        Inl e \<Rightarrow> Inl e
      | Inr output_data \<Rightarrow>
          (case check_crc (if encoding_algo = ENCODING_BZIP2 then output_data else file_data)
                  crc32_stored of
             Inl e \<Rightarrow> Inl e
           | Inr crc_valid \<Rightarrow> Inr (output_data, crc_valid)))"

definition verify_crc :: "(bytes \<Rightarrow> bytes option) \<Rightarrow> bytes \<Rightarrow> nat \<Rightarrow> nat \<Rightarrow> error + bool" where
  "verify_crc bz2_decompress file_data encoding_algo crc32_stored =
     (if encoding_algo = ENCODING_BZIP2 then
        (case decode_data bz2_decompress file_data encoding_algo of
           Inl e \<Rightarrow> Inl e
         | Inr deencoded_data \<Rightarrow> check_crc deencoded_data crc32_stored)
      else check_crc file_data crc32_stored)"

definition sanitize_filename :: "pystr \<Rightarrow> pystr" where
  "sanitize_filename filename =
     (let sanitized = basename filename in
      if length sanitized > 255
      then (case splitext sanitized of
              (root, ext) \<Rightarrow> slice_to root (255 - int (length ext)) @ ext)
      else sanitized)"

definition get_encoding_name :: "nat \<Rightarrow> string" where
  "get_encoding_name encoding_algo =
     (if encoding_algo = ENCODING_BZIP2 then ''BZIP2''
      else if encoding_algo = ENCODING_XOR255_LZW then ''XOR255+LZW''
      else if encoding_algo = ENCODING_XOR255 then ''XOR255''
      else ''Unknown'')"

record result =
  r_filename :: pystr
  r_size :: nat
  r_crc32 :: nat
  r_encoding :: string
  r_crc_passed :: bool
  r_timestamp :: nat
  r_status :: string

definition create_result_entry ::
    "pystr \<Rightarrow> nat \<Rightarrow> nat \<Rightarrow> nat \<Rightarrow> bool \<Rightarrow> nat \<Rightarrow> string \<Rightarrow> result" where
  "create_result_entry filename filesize crc32_stored encoding_algo crc_valid timestamp status =
     \<lparr>r_filename = filename, r_size = filesize, r_crc32 = crc32_stored,
      r_encoding = get_encoding_name encoding_algo, r_crc_passed = crc_valid,
      r_timestamp = timestamp, r_status = status\<rparr>"

definition write_output :: "world \<Rightarrow> pystr \<Rightarrow> pystr \<Rightarrow> bytes \<Rightarrow> world" where
  "write_output w output_directory filename output_data =
     (if output_directory = dash then w\<lparr>stdout := stdout w @ output_data\<rparr>
      else w\<lparr>files := (files w)(path_join output_directory filename \<mapsto> output_data)\<rparr>)"

subsection \<open>The scan loops\<close>

text \<open>
  Each loop reads a block header and the payload and goes on with the file advanced. A
  \<open>ValueError\<close> from the header read ends the loop; any other exception leaves the
  operation. The loops end because a header that was read took 62 bytes of the file.
\<close>

lemma file_read_facts:
  assumes "file_read n f = (d, f')"
  shows "content f' = content f" "pos f' = pos f + length d"
    "d = take n (drop (pos f) (content f))"
  using assms by (auto simp: file_read_def Let_def)

lemma read_file_block_header_Inr:
  assumes "read_file_block_header f = Inr (h, f3)"
  obtains name_field raw filename h0 h1 h2 h3 h4 f1 f2 where
    "file_read 2 f = (BLOCK_MAGIC, f1)" "file_read 40 f1 = (name_field, f2)"
    "utf8_decode (takeWhile (\<lambda>b. b \<noteq> 0) name_field) = Inr filename"
    "file_read 20 f2 = (raw, f3)" "struct_unpack raw = Inr (h0, h1, h2, h3, h4)"
    "h = (filename, h2, h3, h4, h1)"
  using assms unfolding read_file_block_header_def
  by (simp split: prod.splits if_splits sum.splits)

lemma read_file_block_header_advance:
  assumes "read_file_block_header f = Inr (h, f3)"
  shows "content f3 = content f \<and> pos f < pos f3 \<and> pos f3 \<le> length (content f)"
proof -
  obtain name_field raw filename h0 h1 h2 h3 h4 f1 f2 where
    r1: "file_read 2 f = (BLOCK_MAGIC, f1)" and r2: "file_read 40 f1 = (name_field, f2)"
    and r3: "file_read 20 f2 = (raw, f3)" and u: "struct_unpack raw = Inr (h0, h1, h2, h3, h4)"
    using read_file_block_header_Inr [OF assms] by metis
  have c: "content f1 = content f" "content f2 = content f" "content f3 = content f"
    using file_read_facts(1) [OF r1] file_read_facts(1) [OF r2] file_read_facts(1) [OF r3]
    by simp_all
  have p1: "pos f1 = pos f + 2"
    using file_read_facts(2) [OF r1] by (simp add: BLOCK_MAGIC_def)
  have p2: "pos f1 \<le> pos f2" using file_read_facts(2) [OF r2] by simp
  have l: "length raw = 20" using u by (simp add: struct_unpack_def split: if_splits)
  have p3: "pos f3 = pos f2 + 20" using file_read_facts(2) [OF r3] l by simp
  have "length (take 20 (drop (pos f2) (content f2))) = 20"
    using file_read_facts(3) [OF r3] l by simp
  then have "pos f2 + 20 \<le> length (content f2)" by simp
  then show ?thesis using c p1 p2 p3 by simp
qed

lemma file_read_bound:
  assumes "file_read n f = (d, f')" "pos f \<le> length (content f)"
  shows "content f' = content f \<and> pos f \<le> pos f' \<and> pos f' \<le> length (content f)"
  using assms by (auto simp: file_read_def Let_def)

lemma scan_step_decreases:
  assumes "read_file_block_header f = Inr (h, f1)" "(d, f2) = file_read n f1"
  shows "length (content f2) - pos f2 < length (content f) - pos f"
proof -
  have a: "content f1 = content f" "pos f < pos f1" "pos f1 \<le> length (content f)"
    using read_file_block_header_advance [OF assms(1)] by simp_all
  have "pos f1 \<le> length (content f1)" using a by simp
  then have "content f2 = content f1 \<and> pos f1 \<le> pos f2 \<and> pos f2 \<le> length (content f1)"
    using file_read_bound [OF assms(2) [symmetric]] by simp
  then have b: "content f2 = content f" "pos f1 \<le> pos f2" "pos f2 \<le> length (content f)"
    using a by simp_all
  have "pos f < pos f2" using a(2) b(2) by linarith
  then show ?thesis unfolding b(1) using b(3) by linarith
qed

function unpack_loop ::
    "(bytes \<Rightarrow> bytes option) \<Rightarrow> rch \<Rightarrow> pystr \<Rightarrow> pystr list \<Rightarrow> rfile \<Rightarrow> world \<Rightarrow> result list
      \<Rightarrow> error + (result list \<times> world)" where
  "unpack_loop bz2_decompress self output_directory filenames rch_file w results =
     (case read_file_block_header rch_file of
        Inl e \<Rightarrow> if e = ValueError then Inr (results, w) else Inl e
      | Inr ((filename, filesize, crc32_stored, encoding_algo, timestamp), f1) \<Rightarrow>
          (case file_read filesize f1 of
             (file_data, f2) \<Rightarrow>
               (let safe_filename = sanitize_filename filename in
                if filenames = [] \<or> filename \<in> set filenames then
                  (case process_file_data bz2_decompress file_data encoding_algo crc32_stored of
                     Inl e \<Rightarrow>
                       if e = ValueError
                       then unpack_loop bz2_decompress self output_directory filenames f2 w
                              (results @ [create_result_entry safe_filename filesize crc32_stored
                                 encoding_algo False timestamp ''Failed''])
                       else Inl e
                   | Inr (output_data, crc_valid) \<Rightarrow>
                       if \<not> crc_valid \<and> \<not> force self
                       then unpack_loop bz2_decompress self output_directory filenames f2 w
                              (results @ [create_result_entry safe_filename filesize crc32_stored
                                 encoding_algo False timestamp ''Failed''])
                       else unpack_loop bz2_decompress self output_directory filenames f2
                              (write_output w output_directory safe_filename output_data)
                              (results @ [create_result_entry safe_filename filesize crc32_stored
                                 encoding_algo crc_valid timestamp
                                 (if crc_valid \<or> force self then ''Unpacked'' else ''Failed'')]))
                else unpack_loop bz2_decompress self output_directory filenames f2 w results)))"
  by pat_completeness auto
termination
proof (relation "measure (\<lambda>(d, s, out, names, f, w, rs). length (content f) - pos f)")
  show "wf (measure (\<lambda>(d, s, out, names, f, w, rs). length (content f) - pos f))" by simp
qed (auto intro: scan_step_decreases)

text \<open>
  \<open>unpack_rch\<close>. The archive is the standard input when its name is \<open>-\<close>. A bad
  archive magic is a \<open>ValueError\<close> that leaves the operation.
\<close>

definition unpack_rch ::
    "(bytes \<Rightarrow> bytes option) \<Rightarrow> rch \<Rightarrow> world \<Rightarrow> pystr \<Rightarrow> pystr \<Rightarrow> pystr list
      \<Rightarrow> error + (result list \<times> world)" where
  "unpack_rch bz2_decompress self w rch_filename output_directory filenames =
     (case (if rch_filename = dash then Inr \<lparr>content = stdin w, pos = 0\<rparr>
            else open_rb w rch_filename) of
        Inl e \<Rightarrow> Inl e
      | Inr rch_file \<Rightarrow>
          (case read_rch_header rch_file of
             Inl e \<Rightarrow> Inl e
           | Inr f \<Rightarrow> unpack_loop bz2_decompress self output_directory filenames f w []))"

function check_loop ::
    "(bytes \<Rightarrow> bytes option) \<Rightarrow> rfile \<Rightarrow> result list \<Rightarrow> error + result list" where
  "check_loop bz2_decompress rch_file results =
     (case read_file_block_header rch_file of
        Inl e \<Rightarrow> if e = ValueError then Inr results else Inl e
      | Inr ((filename, filesize, crc32_stored, encoding_algo, timestamp), f1) \<Rightarrow>
          (case file_read filesize f1 of
             (file_data, f2) \<Rightarrow>
               (case (case verify_crc bz2_decompress file_data encoding_algo crc32_stored of
                        Inl e \<Rightarrow> if e = ValueError then Inr False else Inl e
                      | Inr crc_valid \<Rightarrow> Inr crc_valid) of
                  Inl e \<Rightarrow> Inl e
                | Inr crc_valid \<Rightarrow>
                    check_loop bz2_decompress f2
                      (results @ [create_result_entry (sanitize_filename filename) filesize
                         crc32_stored encoding_algo crc_valid timestamp ''Checked'']))))"
  by pat_completeness auto
termination
proof (relation "measure (\<lambda>(d, f, rs). length (content f) - pos f)")
  show "wf (measure (\<lambda>(d, f, rs). length (content f) - pos f))" by simp
qed (auto intro: scan_step_decreases)

definition check_rch ::
    "(bytes \<Rightarrow> bytes option) \<Rightarrow> world \<Rightarrow> pystr \<Rightarrow> error + result list" where
  "check_rch bz2_decompress w rch_filename =
     (case (if rch_filename = dash then Inr \<lparr>content = stdin w, pos = 0\<rparr>
            else open_rb w rch_filename) of
        Inl e \<Rightarrow> Inl e
      | Inr rch_file \<Rightarrow>
          (case read_rch_header rch_file of
             Inl e \<Rightarrow> Inl e
           | Inr f \<Rightarrow> check_loop bz2_decompress f []))"

text \<open>
  The loop of \<open>detract_file\<close>: \<open>temp_file\<close> is the bytes written to the temporary file
  so far. A block that is kept is read again from \<open>current_pos\<close> and copied.
\<close>

lemma copy_step_decreases:
  assumes hd: "read_file_block_header f = Inr (h, f1)"
    and rd: "(file_data, f2) = file_read n f1"
    and cpy: "(block, f3) = file_read (2 + 40 + 4 * 5 + m) (file_seek (file_tell f) f2)"
  shows "length (content f3) - pos f3 < length (content f) - pos f"
proof -
  have a: "content f1 = content f" "pos f < pos f1" "pos f1 \<le> length (content f)"
    using read_file_block_header_advance [OF hd] by simp_all
  have c2: "content f2 = content f"
    using file_read_facts(1) [OF rd [symmetric]] a by simp
  have blk: "block = take (62 + m) (drop (pos f) (content f))"
    and p3: "pos f3 = pos f + length block" and c3: "content f3 = content f"
    using file_read_facts [OF cpy [symmetric]] c2 by (simp_all add: file_seek_def file_tell_def)
  have "0 < length block" "pos f + length block \<le> length (content f)"
    using a blk by auto
  then show ?thesis unfolding p3 c3 by linarith
qed

function detract_loop :: "pystr \<Rightarrow> rfile \<Rightarrow> bytes \<Rightarrow> bool \<Rightarrow> error + (bytes \<times> bool)" where
  "detract_loop file_to_remove rch_file temp_file file_removed =
     (let current_pos = file_tell rch_file in
      case read_file_block_header rch_file of
        Inl e \<Rightarrow> if e = ValueError then Inr (temp_file, file_removed) else Inl e
      | Inr ((filename, filesize, crc32_stored, encoding_algo, timestamp), f1) \<Rightarrow>
          (case file_read filesize f1 of
             (file_data, f2) \<Rightarrow>
               if filename \<noteq> file_to_remove
               then (case file_read (2 + 40 + 4 * 5 + filesize) (file_seek current_pos f2) of
                       (block, f3) \<Rightarrow>
                         detract_loop file_to_remove f3 (temp_file @ block) file_removed)
               else detract_loop file_to_remove f2 temp_file True))"
  by pat_completeness auto
termination
proof (relation "measure (\<lambda>(n, f, t, r). length (content f) - pos f)")
  show "wf (measure (\<lambda>(n, f, t, r). length (content f) - pos f))" by simp
qed (auto intro: scan_step_decreases copy_step_decreases)





declare unpack_loop.simps [simp del]
declare check_loop.simps [simp del]
declare detract_loop.simps [simp del]

subsection \<open>Well-formed archives\<close>

text \<open>
  A block as the data model has it: the 40-byte name field, the two fields in front of
  the payload length (written as 1 and 0), the stored checksum, the algorithm id and the
  payload. \<open>block_header_bytes b n\<close> is its 62-byte header with \<open>n\<close> as the declared
  payload length, \<open>block_bytes b\<close> the whole block as it lies in an archive, and an
  archive is a 28-byte header followed by the bytes of its blocks.
\<close>

record block =
  b_name :: bytes
  b_version :: nat
  b_reserved :: nat
  b_crc :: nat
  b_algo :: nat
  b_payload :: bytes

definition block_header_bytes :: "block \<Rightarrow> nat \<Rightarrow> bytes" where
  "block_header_bytes b n =
     BLOCK_MAGIC @ b_name b @ pack_u32 (b_version b) @ pack_u32 (b_reserved b) @ pack_u32 n
       @ pack_u32 (b_crc b) @ pack_u32 (b_algo b)"

definition block_bytes :: "block \<Rightarrow> bytes" where
  "block_bytes b = block_header_bytes b (length (b_payload b)) @ b_payload b"

definition block_filename :: "block \<Rightarrow> pystr" where
  "block_filename b =
     (case utf8_decode (takeWhile (\<lambda>c. c \<noteq> 0) (b_name b)) of Inr name \<Rightarrow> name | Inl e \<Rightarrow> [])"

definition wf_block :: "block \<Rightarrow> bool" where
  "wf_block b \<longleftrightarrow> length (b_name b) = 40
     \<and> utf8_decode (takeWhile (\<lambda>c. c \<noteq> 0) (b_name b)) = Inr (block_filename b)
     \<and> b_version b < 4294967296 \<and> b_reserved b < 4294967296 \<and> b_crc b < 4294967296
     \<and> b_algo b < 4294967296 \<and> length (b_payload b) < 4294967296"


section \<open>Properties of the dictionary codec\<close>

subsection \<open>Parsing of the code stream\<close>

lemma from_bytes_odd_tail:
  "even (length xs) \<Longrightarrow> from_bytes (xs @ [b]) = from_bytes xs @ [unat b]"
  by (induction xs rule: from_bytes.induct) auto

lemma from_bytes_padded_tail:
  "even (length xs) \<Longrightarrow> from_bytes (xs @ [0, b]) = from_bytes xs @ [unat b]"
  by (induction xs rule: from_bytes.induct) auto

lemma unat_byte_less: "unat (b :: byte) < 256"
  using unsigned_less [of b] by simp

text \<open>
  Claim C10. An input of odd length is an even-length prefix \<open>xs\<close> followed by one byte
  \<open>b\<close>. The decoder does not reject it for its length: the last byte is parsed as a code
  of its own, of value \<open>unat b\<close> below 256, and the whole input decodes exactly as the
  input in which that byte is preceded by a zero byte.
\<close>

theorem odd_length_tail_is_own_code:
  assumes "even (length xs)"
  shows "from_bytes (xs @ [b]) = from_bytes xs @ [unat b] \<and> unat b < 256
    \<and> LZWDecompressor_decode (xs @ [b]) = LZWDecompressor_decode (xs @ [0, b])"
  using assms
  by (simp add: from_bytes_odd_tail from_bytes_padded_tail unat_byte_less
      LZWDecompressor_decode_def)

theorem odd_length_tail_is_own_code_witness:
  "even (length [0, 1 :: byte])
    \<and> from_bytes ([0, 1] @ [5]) = from_bytes [0, 1] @ [unat (5 :: byte)]
    \<and> LZWDecompressor_decode ([0, 1] @ [5]) = LZWDecompressor_decode ([0, 1] @ [0, 5])
    \<and> LZWDecompressor_decode [0, 1, 5] = Inr [1, 5]"
  using odd_length_tail_is_own_code [of "[0, 1]" 5]
  by (simp add: LZWDecompressor_decode_def reset_dictionary_def get_entry_def
      add_to_dictionary_def can_add_to_dictionary_def)

subsection \<open>The dictionary stays within its bounds\<close>

lemma lzw_inv_reset: "lzw_inv reset_dictionary"
  by (simp add: lzw_inv_def reset_dictionary_def)

lemma lzw_inv_add: "lzw_inv st \<Longrightarrow> lzw_inv (add_to_dictionary st k v)"
  by (simp add: lzw_inv_def add_to_dictionary_def can_add_to_dictionary_def)

lemma enc_ok_reset: "enc_ok reset_dictionary"
  unfolding enc_ok_def
  apply (intro conjI lzw_inv_reset)
  apply (auto simp: reset_dictionary_def unat_byte_less word_unat_eq_iff split: list.splits)
  done

lemma enc_ok_add:
  assumes "enc_ok st" "dictionary st k = None" "k \<noteq> []"
  shows "enc_ok (add_to_dictionary st k v)"
proof (cases "can_add_to_dictionary st")
  case False
  then show ?thesis using assms by (simp add: add_to_dictionary_def)
next
  case True
  have inv: "lzw_inv (add_to_dictionary st k v)"
    using assms(1) by (simp add: enc_ok_def lzw_inv_add)
  have lt: "\<And>k c. dictionary st k = Some c \<Longrightarrow> c < next_code st"
    using assms(1) by (simp add: enc_ok_def)
  have inj: "\<And>k k' c. dictionary st k = Some c \<Longrightarrow> dictionary st k' = Some c \<Longrightarrow> k = k'"
    using assms(1) unfolding enc_ok_def by blast
  have sing: "\<And>b. dictionary st [b] = Some (unat b)"
    using assms(1) by (simp add: enc_ok_def)
  have emp: "dictionary st [] = None"
    using assms(1) by (simp add: enc_ok_def)
  show ?thesis
    unfolding enc_ok_def
  proof (intro conjI allI impI)
    show "lzw_inv (add_to_dictionary st k v)" by (rule inv)
  next
    fix b show "dictionary (add_to_dictionary st k v) [b] = Some (unat b)"
      using True sing [of b] assms(2) by (auto simp: add_to_dictionary_def)
  next
    show "dictionary (add_to_dictionary st k v) [] = None"
      using True emp assms(3) by (auto simp: add_to_dictionary_def)
  next
    fix k0 c assume "dictionary (add_to_dictionary st k v) k0 = Some c"
    then show "c < next_code (add_to_dictionary st k v)"
      using True lt [of k0 c] by (auto simp: add_to_dictionary_def split: if_splits)
  next
    fix k1 k2 c
    assume "dictionary (add_to_dictionary st k v) k1 = Some c"
      and "dictionary (add_to_dictionary st k v) k2 = Some c"
    then show "k1 = k2"
      using True lt [of k1 c] lt [of k2 c] inj [of k1 c k2]
      by (auto simp: add_to_dictionary_def split: if_splits)
  qed
qed

lemma encode_loop_ok:
  assumes "enc_ok st" "string = [] \<or> dictionary st string \<noteq> None" "\<forall>c\<in>set enc. c < 65536"
  shows "\<exists>st' s' enc'. encode_loop st string enc data = Inr (st', s', enc') \<and> enc_ok st'
     \<and> (s' = [] \<or> dictionary st' s' \<noteq> None) \<and> (\<forall>c\<in>set enc'. c < 65536)
     \<and> (data \<noteq> [] \<longrightarrow> s' \<noteq> [])"
  using assms
proof (induction data arbitrary: st string enc)
  case Nil
  then show ?case by simp
next
  case (Cons symbol data)
  let ?sps = "string @ [symbol]"
  show ?case
  proof (cases "dictionary st ?sps \<noteq> None")
    case True
    have "\<exists>st' s' enc'. encode_loop st ?sps enc data = Inr (st', s', enc') \<and> enc_ok st'
     \<and> (s' = [] \<or> dictionary st' s' \<noteq> None) \<and> (\<forall>c\<in>set enc'. c < 65536)
     \<and> (data \<noteq> [] \<longrightarrow> s' \<noteq> [])"
      using Cons.IH [of st ?sps enc] Cons.prems True by simp
    moreover have "data = [] \<longrightarrow> encode_loop st ?sps enc data = Inr (st, ?sps, enc)" by simp
    ultimately show ?thesis using True by (auto simp: Let_def)
  next
    case False
    then have none: "dictionary st ?sps = None" by simp
    have sne: "string \<noteq> []"
      using none Cons.prems(1) by (auto simp: enc_ok_def)
    then obtain code where code: "dictionary st string = Some code"
      using Cons.prems(2) by auto
    have clt: "code < 65536"
      using code Cons.prems(1) by (fastforce simp: enc_ok_def lzw_inv_def)
    let ?st = "add_to_dictionary st ?sps ?sps"
    have ok: "enc_ok ?st" using enc_ok_add [OF Cons.prems(1) none] by simp
    have in': "dictionary ?st [symbol] \<noteq> None" using ok by (simp add: enc_ok_def)
    have "\<exists>st' s' enc'. encode_loop ?st [symbol] (enc @ [code]) data = Inr (st', s', enc') \<and> enc_ok st'
     \<and> (s' = [] \<or> dictionary st' s' \<noteq> None) \<and> (\<forall>c\<in>set enc'. c < 65536)
     \<and> (data \<noteq> [] \<longrightarrow> s' \<noteq> [])"
      using Cons.IH [of ?st "[symbol]" "enc @ [code]"] ok in' clt Cons.prems(3) by simp
    moreover have "data = [] \<longrightarrow> encode_loop ?st [symbol] (enc @ [code]) data = Inr (?st, [symbol], enc @ [code])" by simp
    ultimately show ?thesis using none code by (auto simp: Let_def)
  qed
qed

lemma to_bytes_ok: "\<forall>c\<in>set cs. c < 65536 \<Longrightarrow> \<exists>bs. to_bytes cs = Inr bs \<and> from_bytes bs = cs \<and> length bs = 2 * length cs"
proof (induction cs)
  case Nil then show ?case by simp
next
  case (Cons c cs)
  then obtain bs where bs: "to_bytes cs = Inr bs" "from_bytes bs = cs" "length bs = 2 * length cs" by auto
  have c: "c < 65536" using Cons.prems by simp
  have hi: "unat (word_of_nat (c div 256) :: byte) = c div 256"
    using c by (simp add: unat_of_nat)
  have lo: "unat (word_of_nat (c mod 256) :: byte) = c mod 256"
    by (simp add: unat_of_nat)
  show ?case using bs c hi lo by simp
qed

lemma decode_loop_inv:
  "lzw_inv st \<Longrightarrow> decode_loop st s acc codes = Inr (st', out) \<Longrightarrow> lzw_inv st'"
proof (induction codes arbitrary: st s acc)
  case Nil
  then show ?case by simp
next
  case (Cons code codes)
  from Cons.prems(2) obtain entry where e: "get_entry st code s = Inr entry"
    by (auto split: sum.splits)
  let ?st = "add_to_dictionary st (s @ take 1 entry) (s @ take 1 entry)"
  have "decode_loop ?st entry (acc @ entry) codes = Inr (st', out)"
    using Cons.prems(2) e by simp
  then show ?case using Cons.IH [of ?st] lzw_inv_add [OF Cons.prems(1)] by blast
qed

lemma encode_total:
  "\<exists>st' s' codes out. encode_loop reset_dictionary [] [] data = Inr (st', s', codes)
      \<and> lzw_inv st' \<and> (\<forall>c\<in>set codes. c < 65536)
      \<and> (s' \<noteq> [] \<longrightarrow> (\<exists>c<65536. dictionary st' s' = Some c))
      \<and> LZWCompressor_encode data = Inr out
      \<and> from_bytes out = codes @ (case dictionary st' s' of None \<Rightarrow> [] | Some c \<Rightarrow> [c])"
proof -
  obtain st' s' codes where r: "encode_loop reset_dictionary [] [] data = Inr (st', s', codes)"
    and ok: "enc_ok st'" and s': "s' = [] \<or> dictionary st' s' \<noteq> None"
    and cs: "\<forall>c\<in>set codes. c < 65536"
    using encode_loop_ok [of reset_dictionary "[]" "[]" data] enc_ok_reset by auto
  have inv: "lzw_inv st'" using ok by (simp add: enc_ok_def)
  have emp: "dictionary st' [] = None" using ok by (simp add: enc_ok_def)
  have lt: "\<And>k c. dictionary st' k = Some c \<Longrightarrow> c < 65536"
    using ok by (fastforce simp: enc_ok_def lzw_inv_def)
  show ?thesis
  proof (cases "s' = []")
    case True
    obtain out where "to_bytes codes = Inr out" "from_bytes out = codes"
      using to_bytes_ok [OF cs] by auto
    then show ?thesis using r inv cs True emp by (simp add: LZWCompressor_encode_def)
  next
    case False
    then obtain c where c: "dictionary st' s' = Some c" using s' by auto
    have "\<forall>x\<in>set (codes @ [c]). x < 65536" using cs lt [OF c] by simp
    then obtain out where "to_bytes (codes @ [c]) = Inr out" "from_bytes out = codes @ [c]"
      using to_bytes_ok by blast
    then show ?thesis using r inv cs False c lt [OF c] by (simp add: LZWCompressor_encode_def)
  qed
qed

text \<open>
  Claim C9. The next free code stays between 256 and 65536 during every encode and every
  decode. The dictionary starts with the 256 one-byte strings and next code 256; an
  insertion raises the next code by one only while it is below 65536, and changes nothing
  once it is 65536. The state after any number of loop iterations is the final state of the
  run on a prefix of the input, so the statements below on final states cover every state
  the loops pass through. Every code the encoder emits is below 65536, so the two-byte
  serialisation never overflows: \<open>encode\<close> always returns, and its output parses back
  to the emitted codes.
\<close>

theorem next_code_bounds:
  "lzw_inv reset_dictionary \<and> next_code reset_dictionary = 256
   \<and> (\<forall>b. dictionary reset_dictionary [b] = Some (unat b)
          \<and> reverse_dictionary reset_dictionary (unat b) = Some [b])
   \<and> (lzw_inv st \<longrightarrow> lzw_inv (add_to_dictionary st k v)
        \<and> next_code (add_to_dictionary st k v)
            = (if next_code st < 65536 then next_code st + 1 else next_code st)
        \<and> (next_code st = 65536 \<longrightarrow> add_to_dictionary st k v = st))
   \<and> (\<exists>st' s' codes out. encode_loop reset_dictionary [] [] data = Inr (st', s', codes)
        \<and> lzw_inv st' \<and> (\<forall>c\<in>set codes. c < 65536)
        \<and> (s' \<noteq> [] \<longrightarrow> (\<exists>c<65536. dictionary st' s' = Some c))
        \<and> LZWCompressor_encode data = Inr out
        \<and> from_bytes out = codes @ (case dictionary st' s' of None \<Rightarrow> [] | Some c \<Rightarrow> [c]))
   \<and> (\<forall>st' out. decode_loop reset_dictionary s acc cs = Inr (st', out) \<longrightarrow> lzw_inv st')"
proof (intro conjI)
  show "lzw_inv reset_dictionary" by (rule lzw_inv_reset)
  show "next_code reset_dictionary = 256" by (simp add: reset_dictionary_def)
  show "\<forall>b. dictionary reset_dictionary [b] = Some (unat b)
          \<and> reverse_dictionary reset_dictionary (unat b) = Some [b]"
    by (simp add: reset_dictionary_def unat_byte_less)
  show "lzw_inv st \<longrightarrow> lzw_inv (add_to_dictionary st k v)
        \<and> next_code (add_to_dictionary st k v)
            = (if next_code st < 65536 then next_code st + 1 else next_code st)
        \<and> (next_code st = 65536 \<longrightarrow> add_to_dictionary st k v = st)"
    by (simp add: lzw_inv_def add_to_dictionary_def can_add_to_dictionary_def)
  show "\<exists>st' s' codes out. encode_loop reset_dictionary [] [] data = Inr (st', s', codes)
        \<and> lzw_inv st' \<and> (\<forall>c\<in>set codes. c < 65536)
        \<and> (s' \<noteq> [] \<longrightarrow> (\<exists>c<65536. dictionary st' s' = Some c))
        \<and> LZWCompressor_encode data = Inr out
        \<and> from_bytes out = codes @ (case dictionary st' s' of None \<Rightarrow> [] | Some c \<Rightarrow> [c])"
    by (rule encode_total)
  show "\<forall>st' out. decode_loop reset_dictionary s acc cs = Inr (st', out) \<longrightarrow> lzw_inv st'"
    using decode_loop_inv [OF lzw_inv_reset] by blast
qed

theorem next_code_bounds_witness:
  "lzw_inv reset_dictionary
   \<and> lzw_inv (add_to_dictionary reset_dictionary [1, 1] [1, 1])
   \<and> next_code (add_to_dictionary reset_dictionary [1, 1] [1, 1]) = 257
   \<and> (\<exists>st'. decode_loop reset_dictionary [1] [1] [256] = Inr (st', [1, 1, 1]) \<and> lzw_inv st')
   \<and> LZWCompressor_encode [1, 1, 1] = Inr [0, 1, 1, 0]"
proof -
  have d: "decode_loop reset_dictionary [1] [1] [256]
      = Inr (add_to_dictionary reset_dictionary [1, 1] [1, 1], [1, 1, 1])"
    by (simp add: get_entry_def reset_dictionary_def)
  have e: "LZWCompressor_encode [1, 1, 1] = Inr [0, 1, 1, 0]"
    by (simp add: LZWCompressor_encode_def reset_dictionary_def add_to_dictionary_def
        can_add_to_dictionary_def Let_def)
  have n: "next_code reset_dictionary = 256" by (simp add: reset_dictionary_def)
  show ?thesis
    using next_code_bounds [of reset_dictionary "[1, 1]" "[1, 1]" "[1, 1, 1]" "[1]" "[1]" "[256]"] d e n
    by simp
qed

subsection \<open>The decoder follows the encoder\<close>

lemma encode_loop_acc:
  "encode_loop st w enc data =
     (case encode_loop st w [] data of Inl e \<Rightarrow> Inl e
      | Inr (st', w', cs) \<Rightarrow> Inr (st', w', enc @ cs))"
proof (induction data arbitrary: st w enc)
  case Nil
  then show ?case by simp
next
  case (Cons symbol data)
  show ?case
  proof (cases "dictionary st (w @ [symbol]) \<noteq> None")
    case True
    then show ?thesis using Cons.IH [of st "w @ [symbol]" enc] by (simp add: Let_def)
  next
    case False
    show ?thesis
    proof (cases "dictionary st w")
      case None
      then show ?thesis using False by (simp add: Let_def)
    next
      case (Some code)
      let ?st = "add_to_dictionary st (w @ [symbol]) (w @ [symbol])"
      show ?thesis
        using False Some Cons.IH [of ?st "[symbol]" "enc @ [code]"] Cons.IH [of ?st "[symbol]" "[code]"]
        by (simp add: Let_def split: sum.splits)
    qed
  qed
qed

lemma decode_loop_acc:
  "decode_loop st s acc codes =
     (case decode_loop st s [] codes of Inl e \<Rightarrow> Inl e
      | Inr (st', out) \<Rightarrow> Inr (st', acc @ out))"
proof (induction codes arbitrary: st s acc)
  case Nil
  then show ?case by simp
next
  case (Cons code codes)
  show ?case
  proof (cases "get_entry st code s")
    case (Inl e)
    then show ?thesis by simp
  next
    case (Inr entry)
    let ?st = "add_to_dictionary st (s @ take 1 entry) (s @ take 1 entry)"
    show ?thesis
      using Inr Cons.IH [of ?st entry "acc @ entry"] Cons.IH [of ?st entry "entry"]
      by (simp split: sum.splits)
  qed
qed

lemma get_entry_sync:
  assumes sync: "lzw_sync est dst s w" and p: "dictionary est p = Some c"
    and hd: "take 1 p = take 1 w"
  shows "get_entry dst c s = Inr p"
proof -
  have ok: "enc_ok est" using sync by (simp add: lzw_sync_def)
  have clt: "c < next_code est" using ok p by (auto simp: enc_ok_def)
  have inj: "\<And>k k' c. dictionary est k = Some c \<Longrightarrow> dictionary est k' = Some c \<Longrightarrow> k = k'"
    using ok unfolding enc_ok_def by blast
  show ?thesis
  proof (cases "c < next_code dst")
    case True
    then have "reverse_dictionary dst c = Some p" using sync p by (auto simp: lzw_sync_def)
    then show ?thesis by (simp add: get_entry_def)
  next
    case False
    then have none: "reverse_dictionary dst c = None" using sync by (simp add: lzw_sync_def)
    have m: "next_code dst < 65536"
      using False clt sync by (auto simp: lzw_sync_def split: if_splits)
    then have n: "next_code est = next_code dst + 1"
      and lag: "dictionary est (s @ take 1 w) = Some (next_code dst)"
      using sync by (auto simp: lzw_sync_def)
    have c: "c = next_code dst" using False clt n by simp
    have pe: "p = s @ take 1 w" using inj [OF p] lag c by simp
    have sne: "s \<noteq> []" using sync by (simp add: lzw_sync_def)
    have "take 1 w = take 1 s" using hd pe sne by (cases s) auto
    then show ?thesis using none c pe by (simp add: get_entry_def)
  qed
qed

lemma sync_grow:
  assumes "lzw_sync est dst s w" "dictionary est (w @ [symbol]) \<noteq> None"
  shows "lzw_sync est dst s (w @ [symbol])"
proof -
  have "w \<noteq> []" using assms(1) by (simp add: lzw_sync_def)
  then have h: "take 1 (w @ [symbol]) = take 1 w" by (cases w) auto
  show ?thesis using assms unfolding lzw_sync_def h by (auto split: if_splits)
qed

lemma sync_step:
  assumes sync: "lzw_sync est dst s w" and none: "dictionary est (w @ [symbol]) = None"
  shows "lzw_sync (add_to_dictionary est (w @ [symbol]) (w @ [symbol]))
           (add_to_dictionary dst (s @ take 1 w) (s @ take 1 w)) w [symbol]"
proof -
  define e where "e = s @ take 1 w"
  define est2 where "est2 = add_to_dictionary est (w @ [symbol]) (w @ [symbol])"
  define dst2 where "dst2 = add_to_dictionary dst e e"
  have ok: "enc_ok est" and dinv: "lzw_inv dst" and wne: "w \<noteq> []"
    using sync by (simp_all add: lzw_sync_def)
  have ok': "enc_ok est2" using enc_ok_add [OF ok none] by (simp add: est2_def)
  have dinv': "lzw_inv dst2" using lzw_inv_add [OF dinv] by (simp add: dst2_def)
  have sym: "dictionary est2 [symbol] \<noteq> None" using ok' by (simp add: enc_ok_def)
  have inj: "\<And>k k' c. dictionary est k = Some c \<Longrightarrow> dictionary est k' = Some c \<Longrightarrow> k = k'"
    using ok unfolding enc_ok_def by blast
  have hi: "\<And>k. next_code dst \<le> k \<Longrightarrow> reverse_dictionary dst k = None"
    using sync by (simp add: lzw_sync_def)
  have rel: "\<And>x k. dictionary est x = Some k \<Longrightarrow> k < next_code dst
       \<Longrightarrow> reverse_dictionary dst k = Some x"
    using sync by (simp add: lzw_sync_def)
  have lag0: "if next_code dst < 65536
         then next_code est = next_code dst + 1 \<and> dictionary est e = Some (next_code dst)
         else next_code est = 65536"
    using sync unfolding lzw_sync_def e_def by blast
  have mle: "next_code dst \<le> 65536" using dinv by (simp add: lzw_inv_def)
  have nle: "next_code est \<le> 65536" using ok by (simp add: enc_ok_def lzw_inv_def)
  have goal: "lzw_sync est2 dst2 w [symbol]"
  proof (cases "next_code dst < 65536")
    case False
    then have m: "next_code dst = 65536" using mle by simp
    then have n: "next_code est = 65536" using lag0 by simp
    have e2: "est2 = est"
      using n by (simp add: est2_def add_to_dictionary_def can_add_to_dictionary_def)
    have d2: "dst2 = dst"
      using m by (simp add: dst2_def add_to_dictionary_def can_add_to_dictionary_def)
    have "dictionary est [symbol] \<noteq> None" using sym e2 by simp
    then show ?thesis
      unfolding e2 d2 lzw_sync_def using ok dinv wne hi rel m n by simp
  next
    case True
    then have n: "next_code est = next_code dst + 1"
      and lag: "dictionary est e = Some (next_code dst)"
      using lag0 by simp_all
    have dn: "next_code dst2 = next_code dst + 1"
      using True by (simp add: dst2_def add_to_dictionary_def can_add_to_dictionary_def)
    have dr: "reverse_dictionary dst2 = (reverse_dictionary dst)(next_code dst \<mapsto> e)"
      using True by (simp add: dst2_def add_to_dictionary_def can_add_to_dictionary_def)
    have hi': "\<forall>k. next_code dst2 \<le> k \<longrightarrow> reverse_dictionary dst2 k = None"
      using hi by (simp add: dn dr)
    have old: "\<And>x k. dictionary est2 x = Some k \<Longrightarrow> k < next_code est
        \<Longrightarrow> dictionary est x = Some k"
      by (auto simp: est2_def add_to_dictionary_def can_add_to_dictionary_def split: if_splits)
    have rel': "\<forall>x k. dictionary est2 x = Some k \<longrightarrow> k < next_code dst2
            \<longrightarrow> reverse_dictionary dst2 k = Some x"
    proof (intro allI impI)
      fix x k assume a: "dictionary est2 x = Some k" and b: "k < next_code dst2"
      have dx: "dictionary est x = Some k" using old [OF a] b dn n by simp
      show "reverse_dictionary dst2 k = Some x"
      proof (cases "k = next_code dst")
        case True
        then have "x = e" using inj [OF dx] lag by simp
        then show ?thesis using True by (simp add: dr)
      next
        case False
        then have "k < next_code dst" using b dn by simp
        then show ?thesis using rel [OF dx] False by (simp add: dr)
      qed
    qed
    have lag': "if next_code dst2 < 65536
         then next_code est2 = next_code dst2 + 1
            \<and> dictionary est2 (w @ [symbol]) = Some (next_code dst2)
         else next_code est2 = 65536"
      using n nle dn by (auto simp: est2_def add_to_dictionary_def can_add_to_dictionary_def)
    have t: "w @ take 1 [symbol] = w @ [symbol]" by simp
    show ?thesis
      unfolding lzw_sync_def t
      using ok' dinv' wne sym hi' rel' lag' by simp
  qed
  then show ?thesis by (simp only: est2_def dst2_def e_def)
qed

lemma lzw_sync_roundtrip:
  assumes "lzw_sync est dst s w" "encode_loop est w [] data = Inr (est', w', cs)"
    "dictionary est' w' = Some c"
  shows "\<exists>dst'. decode_loop dst s [] (cs @ [c]) = Inr (dst', w @ data)"
  using assms
proof (induction data arbitrary: est dst s w cs)
  case Nil
  then have "get_entry dst c s = Inr w" using get_entry_sync [of est dst s w w c] by simp
  then show ?case using Nil by simp
next
  case (Cons symbol data)
  show ?case
  proof (cases "dictionary est (w @ [symbol]) \<noteq> None")
    case True
    have "encode_loop est (w @ [symbol]) [] data = Inr (est', w', cs)"
      using Cons.prems(2) True by (simp add: Let_def)
    then show ?thesis
      using Cons.IH [OF sync_grow [OF Cons.prems(1) True] _ Cons.prems(3)] by simp
  next
    case False
    then have none: "dictionary est (w @ [symbol]) = None" by simp
    obtain code where code: "dictionary est w = Some code"
      using Cons.prems(1) by (auto simp: lzw_sync_def)
    let ?est = "add_to_dictionary est (w @ [symbol]) (w @ [symbol])"
    let ?dst = "add_to_dictionary dst (s @ take 1 w) (s @ take 1 w)"
    have run: "encode_loop ?est [symbol] [code] data = Inr (est', w', cs)"
      using Cons.prems(2) none code by (simp add: Let_def)
    then obtain cs2 where run2: "encode_loop ?est [symbol] [] data = Inr (est', w', cs2)"
      and cs: "cs = code # cs2"
      using encode_loop_acc [of ?est "[symbol]" "[code]" data] by (auto split: sum.splits)
    have ge: "get_entry dst code s = Inr w"
      using get_entry_sync [OF Cons.prems(1) code] by simp
    obtain dst' where d: "decode_loop ?dst w [] (cs2 @ [c]) = Inr (dst', [symbol] @ data)"
      using Cons.IH [OF sync_step [OF Cons.prems(1) none] run2 Cons.prems(3)] by blast
    have "decode_loop dst s [] (cs @ [c]) = decode_loop ?dst w w (cs2 @ [c])"
      using ge cs by simp
    also have "\<dots> = Inr (dst', w @ symbol # data)"
      using decode_loop_acc [of ?dst w w "cs2 @ [c]"] d by simp
    finally show ?thesis by blast
  qed
qed

lemma lzw_roundtrip:
  assumes "data \<noteq> []"
  shows "\<exists>e. LZWCompressor_encode data = Inr e \<and> LZWDecompressor_decode e = Inr data"
proof -
  obtain st' w' codes out where run: "encode_loop reset_dictionary [] [] data = Inr (st', w', codes)"
    and enc: "LZWCompressor_encode data = Inr out"
    and fb: "from_bytes out = codes @ (case dictionary st' w' of None \<Rightarrow> [] | Some c \<Rightarrow> [c])"
    using encode_total [of data] by blast
  obtain b rest where data: "data = b # rest" using assms by (cases data) auto
  have first: "dictionary reset_dictionary [b] \<noteq> None" by (simp add: reset_dictionary_def)
  have run1: "encode_loop reset_dictionary [b] [] rest = Inr (st', w', codes)"
    using run first unfolding data by (simp add: Let_def)
  obtain st2 w2 e2 where "encode_loop reset_dictionary [b] [] rest = Inr (st2, w2, e2)"
    and "enc_ok st2" and w2: "w2 = [] \<or> dictionary st2 w2 \<noteq> None"
    using encode_loop_ok [of reset_dictionary "[b]" "[]" rest] enc_ok_reset first by auto
  then have ok': "enc_ok st'" and w'in: "w' = [] \<or> dictionary st' w' \<noteq> None"
    using run1 by auto
  have rb: "reverse_dictionary reset_dictionary (unat b) = Some [b]"
    by (simp add: reset_dictionary_def unat_byte_less)
  show ?thesis
  proof (cases rest)
    case Nil
    then have "st' = reset_dictionary" "w' = [b]" "codes = []" using run1 by auto
    then have "from_bytes out = [unat b]" using fb by (simp add: reset_dictionary_def)
    then have "LZWDecompressor_decode out = Inr [b]"
      using rb by (simp add: LZWDecompressor_decode_def)
    then show ?thesis using enc data Nil by simp
  next
    case (Cons symbol data2)
    have none: "dictionary reset_dictionary ([b] @ [symbol]) = None"
      by (simp add: reset_dictionary_def)
    have code0: "dictionary reset_dictionary [b] = Some (unat b)"
      by (simp add: reset_dictionary_def)
    define est where "est = add_to_dictionary reset_dictionary ([b] @ [symbol]) ([b] @ [symbol])"
    have run2: "encode_loop est [symbol] [unat b] data2 = Inr (st', w', codes)"
      using run1 none code0 unfolding Cons est_def by (simp add: Let_def)
    then obtain cs2 where run3: "encode_loop est [symbol] [] data2 = Inr (st', w', cs2)"
      and codes: "codes = unat b # cs2"
      using encode_loop_acc [of est "[symbol]" "[unat b]" data2] by (auto split: sum.splits)
    have okest: "enc_ok est"
      using enc_ok_add [OF enc_ok_reset none] by (simp add: est_def)
    have w'ne: "w' \<noteq> []"
    proof -
      obtain st3 w3 e3 where "encode_loop est [symbol] [] data2 = Inr (st3, w3, e3)"
        and "data2 \<noteq> [] \<longrightarrow> w3 \<noteq> []"
        using encode_loop_ok [of est "[symbol]" "[]" data2] okest by (auto simp: enc_ok_def)
      then show ?thesis using run3 by (cases data2) auto
    qed
    then obtain c where c: "dictionary st' w' = Some c" using w'in by auto
    have estd: "dictionary est = (dictionary reset_dictionary)([b, symbol] \<mapsto> 256)"
      and estn: "next_code est = 257"
      by (simp_all add: est_def add_to_dictionary_def can_add_to_dictionary_def
          reset_dictionary_def)
    have s1: "dictionary est [symbol] \<noteq> None" using okest by (simp add: enc_ok_def)
    have s2: "\<forall>k. next_code reset_dictionary \<le> k \<longrightarrow> reverse_dictionary reset_dictionary k = None"
      by (simp add: reset_dictionary_def)
    have s3: "\<forall>x k. dictionary est x = Some k \<longrightarrow> k < next_code reset_dictionary
            \<longrightarrow> reverse_dictionary reset_dictionary k = Some x"
    proof (intro allI impI)
      fix x k assume a: "dictionary est x = Some k" and b: "k < next_code reset_dictionary"
      have k: "k < 256" using b by (simp add: reset_dictionary_def)
      then have "x \<noteq> [b, symbol]" using a by (auto simp: estd)
      then have "dictionary reset_dictionary x = Some k" using a by (simp add: estd)
      then obtain b' where "x = [b']" "k = unat b'"
        by (auto simp: reset_dictionary_def split: list.splits)
      then show "reverse_dictionary reset_dictionary k = Some x"
        by (simp add: reset_dictionary_def unat_byte_less)
    qed
    have s4: "next_code reset_dictionary < 65536" "next_code est = next_code reset_dictionary + 1"
      "dictionary est ([b] @ take 1 [symbol]) = Some (next_code reset_dictionary)"
      by (simp_all add: estd estn reset_dictionary_def)
    have sync: "lzw_sync est reset_dictionary [b] [symbol]"
      unfolding lzw_sync_def
      using okest lzw_inv_reset s1 s2 s3 s4 by simp
    obtain dst' where d: "decode_loop reset_dictionary [b] [] (cs2 @ [c]) = Inr (dst', [symbol] @ data2)"
      using lzw_sync_roundtrip [OF sync run3 c] by blast
    have "decode_loop reset_dictionary [b] [b] (cs2 @ [c]) = Inr (dst', [b] @ [symbol] @ data2)"
      using decode_loop_acc [of reset_dictionary "[b]" "[b]" "cs2 @ [c]"] d by simp
    moreover have "from_bytes out = unat b # cs2 @ [c]" using fb codes c by simp
    ultimately have "LZWDecompressor_decode out = Inr data"
      using rb by (simp add: LZWDecompressor_decode_def data Cons)
    then show ?thesis using enc by simp
  qed
qed

section \<open>Properties of the encoding dispatcher\<close>

lemma xor255_involution: "xor255 (xor255 x) = x"
proof -
  have "\<And>b :: byte. (b XOR 255) XOR 255 = b"
    by (simp add: xor.assoc)
  then show ?thesis by (simp add: xor255_def comp_def)
qed

lemma xor255_Nil_iff: "xor255 x = [] \<longleftrightarrow> x = []"
  by (simp add: xor255_def)

text \<open>
  Claim C1, as the code has it. The decoder of the dictionary codec raises on an input
  without codes, and the encoder emits no code for the empty input, so the empty payload
  does not survive algorithm 0. For every other payload, and for every payload under
  algorithm 1, decoding the encoding gives the payload back; under algorithm 2 it does so
  whenever the \<open>bz2\<close> library decompresses what it compressed (levels 1 to 9).
\<close>

theorem encode_decode_roundtrip:
  assumes "encoding_algorithm self = ENCODING_XOR255
    \<or> (encoding_algorithm self = ENCODING_XOR255_LZW \<and> x \<noteq> [])
    \<or> (encoding_algorithm self = ENCODING_BZIP2
        \<and> 1 \<le> compression_level self \<and> compression_level self \<le> 9
        \<and> bz2_decompress (bz2_compress (compression_level self) x) = Some x)"
  shows "\<exists>e. encode_file_data bz2_compress self x = Inr e
    \<and> decode_data bz2_decompress e (encoding_algorithm self) = Inr x"
proof -
  consider (inv) "encoding_algorithm self = ENCODING_XOR255"
    | (lzw) "encoding_algorithm self = ENCODING_XOR255_LZW" "x \<noteq> []"
    | (bz2) "encoding_algorithm self = ENCODING_BZIP2"
        "1 \<le> compression_level self" "compression_level self \<le> 9"
        "bz2_decompress (bz2_compress (compression_level self) x) = Some x"
    using assms by blast
  then show ?thesis
  proof cases
    case inv
    then show ?thesis
      by (simp add: encode_file_data_def decode_data_def xor255_involution
          ENCODING_XOR255_def ENCODING_XOR255_LZW_def ENCODING_BZIP2_def)
  next
    case lzw
    have "xor255 x \<noteq> []" using lzw(2) by (simp add: xor255_Nil_iff)
    then obtain e where e: "LZWCompressor_encode (xor255 x) = Inr e"
      "LZWDecompressor_decode e = Inr (xor255 x)"
      using lzw_roundtrip by blast
    then show ?thesis using lzw(1)
      by (simp add: encode_file_data_def decode_data_def xor255_involution
          ENCODING_XOR255_def ENCODING_XOR255_LZW_def ENCODING_BZIP2_def)
  next
    case bz2
    then show ?thesis
      by (simp add: encode_file_data_def decode_data_def)
  qed
qed

theorem encode_decode_roundtrip_witness:
  "[7, 7, 7 :: byte] \<noteq> []
   \<and> encode_file_data (\<lambda>level data. data)
        \<lparr>encoding_algorithm = ENCODING_XOR255_LZW, compression_level = 9, force = False\<rparr>
        [7, 7, 7] = Inr [0, 248, 1, 0]
   \<and> decode_data Some [0, 248, 1, 0] ENCODING_XOR255_LZW = Inr [7, 7, 7]"
proof -
  have e: "encode_file_data (\<lambda>level data. data)
        \<lparr>encoding_algorithm = ENCODING_XOR255_LZW, compression_level = 9, force = False\<rparr>
        [7, 7, 7] = Inr [0, 248, 1, 0]"
    by (simp add: encode_file_data_def ENCODING_XOR255_LZW_def ENCODING_BZIP2_def xor255_def
        LZWCompressor_encode_def reset_dictionary_def add_to_dictionary_def
        can_add_to_dictionary_def Let_def)
  show ?thesis
    using encode_decode_roundtrip [of
        "\<lparr>encoding_algorithm = ENCODING_XOR255_LZW, compression_level = 9, force = False\<rparr>"
        "[7, 7, 7]" Some "\<lambda>level data. data"] e
    by simp
qed

theorem empty_input_roundtrip_fails:
  "LZWCompressor_encode [] = Inr [] \<and> LZWDecompressor_decode [] = Inl ValueError
   \<and> decode_data Some [] ENCODING_XOR255_LZW = Inl ValueError"
  by (simp add: LZWCompressor_encode_def LZWDecompressor_decode_def decode_data_def
      ENCODING_XOR255_LZW_def ENCODING_BZIP2_def)

text \<open>
  Claim C6, at the input where the code departs from it. An input without codes and a
  later code that is neither in the table nor the next code raise \<open>ValueError\<close>, the
  codec's error. A first code outside the initial table is not checked by \<open>_get_entry\<close>:
  the plain dictionary lookup raises \<open>KeyError\<close>. Only \<open>decode_data\<close> turns it into a
  \<open>ValueError\<close>.
\<close>

theorem first_code_lookup_raises_KeyError:
  "LZWDecompressor_decode [1, 0] = Inl KeyError
   \<and> LZWDecompressor_decode [0, 0, 1, 1] = Inl ValueError
   \<and> LZWDecompressor_decode [] = Inl ValueError
   \<and> decode_data Some [1, 0] ENCODING_XOR255_LZW = Inl ValueError"
  by (simp add: LZWDecompressor_decode_def reset_dictionary_def get_entry_def decode_data_def
      ENCODING_XOR255_LZW_def ENCODING_BZIP2_def)

section \<open>Properties of the archive handler\<close>

text \<open>
  Claim C3. With algorithm 2 the checksum written by \<open>_write_file_block\<close> is the one of
  the raw payload, and the checksum compared by \<open>_process_file_data\<close> (unpack) and by
  \<open>_verify_crc\<close> (check) is the one of the decoded payload. With any other algorithm
  all three take the checksum of the encoded bytes as stored.
\<close>

theorem checksum_basis:
  assumes "decode_data bz2_decompress stored encoding_algo = Inr decoded"
  shows "calculate_crc32 self raw encoded
      = zlib_crc32 (if encoding_algorithm self = ENCODING_BZIP2 then raw else encoded)
    \<and> process_file_data bz2_decompress stored encoding_algo crc
      = (if zlib_crc32 (if encoding_algo = ENCODING_BZIP2 then decoded else stored) = crc
         then Inr (decoded, True) else Inl ValueError)
    \<and> verify_crc bz2_decompress stored encoding_algo crc
      = (if zlib_crc32 (if encoding_algo = ENCODING_BZIP2 then decoded else stored) = crc
         then Inr True else Inl ValueError)"
  using assms
  by (auto simp: calculate_crc32_def process_file_data_def verify_crc_def check_crc_def Let_def)

theorem checksum_basis_witness:
  "decode_data Some [254, 253] ENCODING_XOR255 = Inr [1, 2]
   \<and> process_file_data Some [254, 253] ENCODING_XOR255 (zlib_crc32 [254, 253]) = Inr ([1, 2], True)
   \<and> verify_crc Some [254, 253] ENCODING_XOR255 (zlib_crc32 [254, 253]) = Inr True
   \<and> calculate_crc32 \<lparr>encoding_algorithm = ENCODING_XOR255, compression_level = 9, force = False\<rparr>
        [1, 2] [254, 253] = zlib_crc32 [254, 253]"
proof -
  have d: "decode_data Some [254, 253] ENCODING_XOR255 = Inr [1, 2]"
    by (simp add: decode_data_def xor255_def ENCODING_XOR255_def ENCODING_XOR255_LZW_def
        ENCODING_BZIP2_def)
  show ?thesis
    using d checksum_basis [OF d, of
        "\<lparr>encoding_algorithm = ENCODING_XOR255, compression_level = 9, force = False\<rparr>"
        "[1, 2]" "[254, 253]" "zlib_crc32 [254, 253]"]
    by (simp add: ENCODING_XOR255_def ENCODING_BZIP2_def)
qed

subsection \<open>Sanitising a stored name\<close>



subsection \<open>The block header\<close>

lemma length_pack_u32: "length (pack_u32 n) = 4"
  by (simp add: pack_u32_def)

lemma zlib_crc32_less: "zlib_crc32 data < 4294967296"
  unfolding zlib_crc32_def
  using unsigned_less [of "foldl crc32_update 0xFFFFFFFF data XOR 0xFFFFFFFF :: 32 word"]
  by simp

lemma utf8_decode_letters: "utf8_decode (replicate n 0x61) = Inr (replicate n 97)"
  by (induction n) simp_all

lemma write_file_block_bad_name:
  "utf8_decode filename = Inl e
    \<Longrightarrow> write_file_block bz2_compress self rch_file filename file_data = Inl e"
  by (simp add: write_file_block_def)

text \<open>
  Claim C5, as the code has it. For a name that is UTF-8 and at most 40 bytes long the
  block written by \<open>_write_file_block\<close> (the one pack and inject write) is the sink
  followed by the block magic, the name padded with zero bytes to exactly 40 bytes, the
  five 4-byte fields \<open>1, 0, length, checksum, algorithm\<close> and the encoded payload; the
  header in front of the payload is 62 bytes long, whatever the name. Pack and inject
  take the name from a string, so it is UTF-8; on any other byte string the log message
  raises before a byte is written.
\<close>

theorem block_header_layout:
  assumes "utf8_decode filename = Inr name" and "length filename \<le> 40"
    and "encode_file_data bz2_compress self file_data = Inr encoded_data"
    and "length encoded_data < 2 ^ 32" and "encoding_algorithm self < 2 ^ 32"
  shows "write_file_block bz2_compress self rch_file filename file_data
      = Inr (rch_file @ (BLOCK_MAGIC @ (filename @ replicate (40 - length filename) 0)
               @ pack_u32 1 @ pack_u32 0 @ pack_u32 (length encoded_data)
               @ pack_u32 (calculate_crc32 self file_data encoded_data)
               @ pack_u32 (encoding_algorithm self)) @ encoded_data,
             length encoded_data, calculate_crc32 self file_data encoded_data)
    \<and> length (filename @ replicate (40 - length filename) (0 :: byte)) = 40
    \<and> length (BLOCK_MAGIC @ (filename @ replicate (40 - length filename) 0)
               @ pack_u32 1 @ pack_u32 0 @ pack_u32 (length encoded_data)
               @ pack_u32 (calculate_crc32 self file_data encoded_data)
               @ pack_u32 (encoding_algorithm self)) = 62"
proof -
  define crc where "crc = calculate_crc32 self file_data encoded_data"
  define name_field where "name_field = filename @ replicate (40 - length filename) (0 :: byte)"
  have crc: "crc < 4294967296"
    using zlib_crc32_less [of file_data] zlib_crc32_less [of encoded_data]
    by (simp add: crc_def calculate_crc32_def)
  have sp: "struct_pack (1, 0, length encoded_data, crc, encoding_algorithm self)
      = Inr (pack_u32 1 @ pack_u32 0 @ pack_u32 (length encoded_data) @ pack_u32 crc
          @ pack_u32 (encoding_algorithm self))"
    using assms(4,5) crc by (simp add: struct_pack_def)
  have wb: "write_block_to_file self rch_file filename encoded_data crc
      = Inr (rch_file @ BLOCK_MAGIC @ name_field @ (pack_u32 1 @ pack_u32 0
          @ pack_u32 (length encoded_data) @ pack_u32 crc @ pack_u32 (encoding_algorithm self))
          @ encoded_data)"
    unfolding write_block_to_file_def assms(1) sp name_field_def ljust_def by simp
  have l40: "length name_field = 40" using assms(2) by (simp add: name_field_def)
  have l62: "length (BLOCK_MAGIC @ name_field @ pack_u32 1 @ pack_u32 0
          @ pack_u32 (length encoded_data) @ pack_u32 crc @ pack_u32 (encoding_algorithm self)) = 62"
    by (simp add: l40 length_pack_u32 BLOCK_MAGIC_def)
  have wf: "write_file_block bz2_compress self rch_file filename file_data
      = Inr (rch_file @ (BLOCK_MAGIC @ name_field @ pack_u32 1 @ pack_u32 0
          @ pack_u32 (length encoded_data) @ pack_u32 crc @ pack_u32 (encoding_algorithm self))
          @ encoded_data, length encoded_data, crc)"
    using wb unfolding crc_def by (simp add: write_file_block_def assms(1) assms(3) Let_def)
  show ?thesis
    using wf l40 l62 unfolding crc_def name_field_def by blast
qed

theorem block_header_layout_witness:
  "utf8_decode [0x61] = Inr [97] \<and> length [0x61 :: byte] \<le> 40
   \<and> write_file_block (\<lambda>level data. data)
        \<lparr>encoding_algorithm = ENCODING_XOR255, compression_level = 9, force = False\<rparr>
        [] [0x61] [1, 2]
      = Inr (BLOCK_MAGIC @ (0x61 # replicate 39 0) @ pack_u32 1 @ pack_u32 0 @ pack_u32 2
               @ pack_u32 (zlib_crc32 [254, 253]) @ pack_u32 1 @ [254, 253],
             2, zlib_crc32 [254, 253])"
proof -
  define self where
    "self = \<lparr>encoding_algorithm = ENCODING_XOR255, compression_level = 9, force = False\<rparr>"
  have u: "utf8_decode [0x61] = Inr [97]" by simp
  have e: "encode_file_data (\<lambda>level data. data) self [1, 2] = Inr [254, 253]"
    by (simp add: self_def encode_file_data_def xor255_def ENCODING_XOR255_def
        ENCODING_XOR255_LZW_def ENCODING_BZIP2_def)
  have c: "calculate_crc32 self [1, 2] [254, 253] = zlib_crc32 [254, 253]"
    by (simp add: self_def calculate_crc32_def ENCODING_XOR255_def ENCODING_BZIP2_def)
  have a: "encoding_algorithm self = 1" by (simp add: self_def ENCODING_XOR255_def)
  have l: "length [254, 253 :: byte] = 2" by simp
  have r: "replicate (40 - length [0x61 :: byte]) (0 :: byte) = replicate 39 0" by simp
  have "length [0x61 :: byte] \<le> 40" by simp
  moreover have "length [254, 253 :: byte] < 2 ^ 32" by simp
  moreover have "encoding_algorithm self < 2 ^ 32" by (simp add: a)
  ultimately have "write_file_block (\<lambda>level data. data) self [] [0x61] [1, 2]
      = Inr ([] @ (BLOCK_MAGIC @ ([0x61] @ replicate (40 - length [0x61 :: byte]) 0)
               @ pack_u32 1 @ pack_u32 0 @ pack_u32 (length [254, 253 :: byte])
               @ pack_u32 (calculate_crc32 self [1, 2] [254, 253])
               @ pack_u32 (encoding_algorithm self)) @ [254, 253],
             length [254, 253 :: byte], calculate_crc32 self [1, 2] [254, 253])"
    using block_header_layout [of "[0x61]" "[97]" "\<lambda>level data. data" self "[1, 2]"
        "[254, 253]" "[]"] u e
    by blast
  then have "write_file_block (\<lambda>level data. data) self [] [0x61] [1, 2]
      = Inr ([] @ (BLOCK_MAGIC @ ([0x61] @ replicate 39 0)
               @ pack_u32 1 @ pack_u32 0 @ pack_u32 2
               @ pack_u32 (zlib_crc32 [254, 253])
               @ pack_u32 1) @ [254, 253],
             2, zlib_crc32 [254, 253])"
    unfolding c a l r .
  then show ?thesis using u by (simp add: self_def)
qed

theorem block_header_is_not_70_bytes:
  "map_sum id length
     (write_block_to_file
        \<lparr>encoding_algorithm = ENCODING_XOR255, compression_level = 9, force = False\<rparr>
        [] [0x61] [] 0) = Inr 62
   \<and> map_sum id length
     (write_block_to_file
        \<lparr>encoding_algorithm = ENCODING_XOR255, compression_level = 9, force = False\<rparr>
        [] (replicate 41 0x61) [] 0) = Inr 63"
proof -
  have u1: "utf8_decode [0x61] = Inr [97]" by simp
  have u41: "utf8_decode (replicate 41 0x61) = Inr (replicate 41 97)"
    by (rule utf8_decode_letters)
  show ?thesis
    unfolding write_block_to_file_def u1 u41
    by (simp add: struct_pack_def ENCODING_XOR255_def ljust_def BLOCK_MAGIC_def length_pack_u32)
qed

subsection \<open>Reading back what was written\<close>

lemma unat_byte_of_nat: "unat (word_of_nat n :: byte) = n mod 256"
  by (simp add: unat_of_nat)

lemma unpack_pack_u32:
  assumes "n < 4294967296"
  shows "unpack_u32 (pack_u32 n) = n"
proof -
  define u where "u = n div 256"
  define v where "v = u div 256"
  define w where "w = v div 256"
  have u: "n div 256 = u" by (simp add: u_def)
  have v: "n div 65536 = v" by (simp add: v_def u_def div_mult2_eq [symmetric])
  have w: "n div 16777216 = w" by (simp add: w_def v_def u_def div_mult2_eq [symmetric])
  have "w < 256" using assms w by auto
  then have w4: "w mod 256 = w" by simp
  have n1: "n = n mod 256 + 256 * u" by (simp add: u_def)
  have u1: "u = u mod 256 + 256 * v" by (simp add: v_def)
  have v1: "v = v mod 256 + 256 * w" by (simp add: w_def)
  have "unpack_u32 (pack_u32 n)
      = n mod 256 + 256 * (u mod 256 + 256 * (v mod 256 + 256 * (w mod 256)))"
    unfolding unpack_u32_def pack_u32_def u v w by (simp add: unat_byte_of_nat)
  also have "\<dots> = n mod 256 + 256 * (u mod 256 + 256 * v)"
    unfolding w4 using v1 by simp
  also have "\<dots> = n mod 256 + 256 * u" using u1 by simp
  also have "\<dots> = n" using n1 by simp
  finally show ?thesis .
qed

lemma struct_unpack_pack:
  assumes "a < 4294967296" "b < 4294967296" "c < 4294967296" "d < 4294967296" "e < 4294967296"
  shows "struct_unpack (pack_u32 a @ pack_u32 b @ pack_u32 c @ pack_u32 d @ pack_u32 e)
    = Inr (a, b, c, d, e)"
  using assms by (simp add: struct_unpack_def length_pack_u32 unpack_pack_u32)

lemma file_read_at:
  assumes "content f = pre @ d @ rest" "pos f = length pre"
  shows "file_read (length d) f = (d, f\<lparr>pos := length pre + length d\<rparr>)"
  using assms by (simp add: file_read_def Let_def)

lemma read_block_header:
  assumes wf: "wf_block b" and n: "n < 4294967296"
    and c: "content f = pre @ block_header_bytes b n @ rest" and p: "pos f = length pre"
  shows "read_file_block_header f
    = Inr ((block_filename b, n, b_crc b, b_algo b, b_reserved b), f\<lparr>pos := length pre + 62\<rparr>)"
proof -
  define packed where "packed = pack_u32 (b_version b) @ pack_u32 (b_reserved b) @ pack_u32 n
       @ pack_u32 (b_crc b) @ pack_u32 (b_algo b)"
  have lp: "length packed = 20" by (simp add: packed_def length_pack_u32)
  have ln: "length (b_name b) = 40" using wf by (simp add: wf_block_def)
  have lm: "length BLOCK_MAGIC = 2" by (simp add: BLOCK_MAGIC_def)
  have c1: "content f = pre @ BLOCK_MAGIC @ (b_name b @ packed @ rest)"
    using c by (simp add: block_header_bytes_def packed_def)
  define f1 where "f1 = f\<lparr>pos := length pre + 2\<rparr>"
  define f2 where "f2 = f\<lparr>pos := length pre + 42\<rparr>"
  have r1: "file_read 2 f = (BLOCK_MAGIC, f1)"
    using file_read_at [OF c1 p] by (simp add: lm f1_def)
  have c2: "content f1 = (pre @ BLOCK_MAGIC) @ b_name b @ (packed @ rest)"
    and p2: "pos f1 = length (pre @ BLOCK_MAGIC)"
    using c1 by (simp_all add: f1_def lm)
  have r2: "file_read 40 f1 = (b_name b, f2)"
    using file_read_at [OF c2 p2] by (simp add: ln lm f1_def f2_def)
  have c3: "content f2 = (pre @ BLOCK_MAGIC @ b_name b) @ packed @ rest"
    and p3: "pos f2 = length (pre @ BLOCK_MAGIC @ b_name b)"
    using c1 by (simp_all add: f2_def lm ln)
  have r3: "file_read 20 f2 = (packed, f\<lparr>pos := length pre + 62\<rparr>)"
    using file_read_at [OF c3 p3] by (simp add: ln lm lp f2_def)
  have u: "utf8_decode (takeWhile (\<lambda>c. c \<noteq> 0) (b_name b)) = Inr (block_filename b)"
    using wf by (simp add: wf_block_def)
  have s: "struct_unpack packed = Inr (b_version b, b_reserved b, n, b_crc b, b_algo b)"
    unfolding packed_def using wf n by (intro struct_unpack_pack) (simp_all add: wf_block_def)
  show ?thesis
    unfolding read_file_block_header_def r1 by (simp add: r2 u r3 s)
qed

lemma read_at_end:
  assumes "length (content f) \<le> pos f"
  shows "read_file_block_header f = Inl ValueError"
  using assms by (simp add: read_file_block_header_def file_read_def Let_def BLOCK_MAGIC_def)

subsection \<open>Removing blocks\<close>

lemma length_block_header_bytes:
  "length (b_name b) = 40 \<Longrightarrow> length (block_header_bytes b n) = 62"
  by (simp add: block_header_bytes_def length_pack_u32 BLOCK_MAGIC_def)

lemma read_block:
  assumes wf: "wf_block b"
    and c: "content f = pre @ block_bytes b @ rest" and p: "pos f = length pre"
  shows "read_file_block_header f
      = Inr ((block_filename b, length (b_payload b), b_crc b, b_algo b, b_reserved b),
             f\<lparr>pos := length pre + 62\<rparr>)"
    and "file_read (length (b_payload b)) (f\<lparr>pos := length pre + 62\<rparr>)
      = (b_payload b, f\<lparr>pos := length pre + length (block_bytes b)\<rparr>)"
    and "file_read (62 + length (b_payload b)) (f\<lparr>pos := length pre\<rparr>)
      = (block_bytes b, f\<lparr>pos := length pre + length (block_bytes b)\<rparr>)"
    and "length (block_bytes b) = 62 + length (b_payload b)"
proof -
  have ln: "length (b_name b) = 40" and n: "length (b_payload b) < 4294967296"
    using wf by (simp_all add: wf_block_def)
  have lh: "length (block_header_bytes b (length (b_payload b))) = 62"
    using length_block_header_bytes [OF ln] .
  show lb: "length (block_bytes b) = 62 + length (b_payload b)"
    by (simp add: block_bytes_def lh)
  have c1: "content f = pre @ block_header_bytes b (length (b_payload b)) @ (b_payload b @ rest)"
    using c by (simp add: block_bytes_def)
  show "read_file_block_header f
      = Inr ((block_filename b, length (b_payload b), b_crc b, b_algo b, b_reserved b),
             f\<lparr>pos := length pre + 62\<rparr>)"
    using read_block_header [OF wf n c1 p] .
  have c2: "content (f\<lparr>pos := length pre + 62\<rparr>)
      = (pre @ block_header_bytes b (length (b_payload b))) @ b_payload b @ rest"
    and p2: "pos (f\<lparr>pos := length pre + 62\<rparr>)
      = length (pre @ block_header_bytes b (length (b_payload b)))"
    using c1 by (simp_all add: lh)
  show "file_read (length (b_payload b)) (f\<lparr>pos := length pre + 62\<rparr>)
      = (b_payload b, f\<lparr>pos := length pre + length (block_bytes b)\<rparr>)"
    using file_read_at [OF c2 p2] by (simp add: lh lb)
  have c3: "content (f\<lparr>pos := length pre\<rparr>) = pre @ block_bytes b @ rest"
    and p3: "pos (f\<lparr>pos := length pre\<rparr>) = length pre"
    using c by simp_all
  have "62 + length (b_payload b) = length (block_bytes b)" by (simp add: lb)
  then show "file_read (62 + length (b_payload b)) (f\<lparr>pos := length pre\<rparr>)
      = (block_bytes b, f\<lparr>pos := length pre + length (block_bytes b)\<rparr>)"
    using file_read_at [OF c3 p3] by simp
qed









subsection \<open>Checksums and error kinds\<close>

lemma crc32_update_unfold:
  "crc32_update c b = crc32_shift (crc32_shift (crc32_shift (crc32_shift (crc32_shift
     (crc32_shift (crc32_shift (crc32_shift (c XOR ucast b))))))))"
  by (simp add: crc32_update_def eval_nat_numeral)

lemma crc_examples: "zlib_crc32 [254, 253] \<noteq> 7" "zlib_crc32 [1, 2] \<noteq> 7"
  by (simp_all add: zlib_crc32_def crc32_update_unfold crc32_shift_def)

lemma decode_data_error: "decode_data d x a = Inl e \<Longrightarrow> e = ValueError"
  by (auto simp: decode_data_def split: if_splits option.splits sum.splits)

lemma verify_crc_error: "verify_crc d x a c = Inl e \<Longrightarrow> e = ValueError"
  by (auto simp: verify_crc_def check_crc_def Let_def dest: decode_data_error
      split: if_splits sum.splits)

lemma process_file_data_error: "process_file_data d x a c = Inl e \<Longrightarrow> e = ValueError"
  by (auto simp: process_file_data_def check_crc_def Let_def dest: decode_data_error
      split: if_splits sum.splits)

lemma process_file_data_valid: "process_file_data d x a c = Inr (out, v) \<Longrightarrow> v"
  by (auto simp: process_file_data_def check_crc_def Let_def split: if_splits sum.splits)

subsection \<open>Scanning the last block of a stream\<close>

lemma scan_last_block:
  assumes wf: "wf_block b" and n: "n < 4294967296"
    and c: "content f = pre @ block_header_bytes b n @ data" and p: "pos f = length pre"
  shows "read_file_block_header f
      = Inr ((block_filename b, n, b_crc b, b_algo b, b_reserved b), f\<lparr>pos := length pre + 62\<rparr>)"
    and "file_read n (f\<lparr>pos := length pre + 62\<rparr>)
      = (take n data, f\<lparr>pos := length pre + 62 + min n (length data)\<rparr>)"
    and "length data \<le> n \<Longrightarrow> check_loop d f rs
      = Inr (rs @ [create_result_entry (sanitize_filename (block_filename b)) n (b_crc b)
           (b_algo b) (verify_crc d data (b_algo b) (b_crc b) = Inr True) (b_reserved b)
           ''Checked''])"
    and "length data \<le> n \<Longrightarrow> detract_loop name f temp removed
      = Inr (if block_filename b \<noteq> name then temp @ block_header_bytes b n @ data else temp,
             removed \<or> block_filename b = name)"
proof -
  have ln: "length (b_name b) = 40" using wf by (simp add: wf_block_def)
  have lh: "length (block_header_bytes b n) = 62" using length_block_header_bytes [OF ln] .
  show h: "read_file_block_header f
      = Inr ((block_filename b, n, b_crc b, b_algo b, b_reserved b), f\<lparr>pos := length pre + 62\<rparr>)"
    using read_block_header [OF wf n c p] .
  show r: "file_read n (f\<lparr>pos := length pre + 62\<rparr>)
      = (take n data, f\<lparr>pos := length pre + 62 + min n (length data)\<rparr>)"
    by (simp add: file_read_def Let_def c lh min_def)
  {
    assume le: "length data \<le> n"
    define f2 where "f2 = f\<lparr>pos := length pre + 62 + min n (length data)\<rparr>"
    have r': "file_read n (f\<lparr>pos := length pre + 62\<rparr>) = (data, f2)"
      using r le by (simp add: f2_def)
    have "length (content f2) \<le> pos f2" using le by (simp add: f2_def c lh)
    then have e: "read_file_block_header f2 = Inl ValueError" by (rule read_at_end)
    have stop: "\<And>rs'. check_loop d f2 rs' = Inr rs'"
      by (subst check_loop.simps) (simp add: e)
    show "check_loop d f rs
      = Inr (rs @ [create_result_entry (sanitize_filename (block_filename b)) n (b_crc b)
           (b_algo b) (verify_crc d data (b_algo b) (b_crc b) = Inr True) (b_reserved b)
           ''Checked''])"
    proof (cases "verify_crc d data (b_algo b) (b_crc b)")
      case (Inl e')
      then have "e' = ValueError" by (rule verify_crc_error)
      then show ?thesis
        using Inl by (subst check_loop.simps) (simp add: h r' stop)
    next
      case (Inr v)
      then show ?thesis
        by (subst check_loop.simps) (simp add: h r' stop)
    qed
    have stop2: "\<And>t x. detract_loop name f2 t x = Inr (t, x)"
      by (subst detract_loop.simps) (simp add: e Let_def)
    have sk: "file_seek (file_tell f) f2 = f\<lparr>pos := length pre\<rparr>"
      by (simp add: file_seek_def file_tell_def f2_def p)
    have cp: "file_read (62 + n) (f\<lparr>pos := length pre\<rparr>) = (block_header_bytes b n @ data, f2)"
      using le by (simp add: file_read_def Let_def c lh f2_def min_def)
    show "detract_loop name f temp removed
      = Inr (if block_filename b \<noteq> name then temp @ block_header_bytes b n @ data else temp,
             removed \<or> block_filename b = name)"
      by (subst detract_loop.simps) (simp add: Let_def h r' stop2 sk cp)
  }
qed

lemma read_rch_header_ok:
  assumes "content f = write_rch_header [] @ rest" "pos f = 0"
  shows "read_rch_header f = Inr (f\<lparr>pos := 28\<rparr>)"
  using assms
  by (simp add: read_rch_header_def file_read_def Let_def write_rch_header_def RCH_MAGIC_def
      length_pack_u32)

lemma sanitize_plain_name: "sanitize_filename [97] = [97]"
  by (simp add: sanitize_filename_def basename_def rfind_def slash_def Let_def)

text \<open>
  Claim C4, as the code has it. After the header of a block the scan reads the payload
  with \<open>read(length)\<close>: it gets the first \<open>length\<close> bytes of what follows when that many
  are there, and otherwise all the bytes that are left, and the file advances by the
  number of bytes it got. A short read raises nothing: \<open>check\<close> records the block, with
  the declared length and the checksum verdict on the short payload, and \<open>detract\<close>
  copies or drops it; both end normally there.
\<close>

theorem payload_read_returns_what_is_left:
  assumes "wf_block b" and "n < 4294967296"
    and "content f = pre @ block_header_bytes b n @ data" and "pos f = length pre"
  shows "\<exists>f1. read_file_block_header f
        = Inr ((block_filename b, n, b_crc b, b_algo b, b_reserved b), f1)
     \<and> file_read n f1 = (take n data, f1\<lparr>pos := pos f1 + min n (length data)\<rparr>)
     \<and> (length data \<le> n \<longrightarrow>
          check_loop d f rs
            = Inr (rs @ [create_result_entry (sanitize_filename (block_filename b)) n (b_crc b)
                 (b_algo b) (verify_crc d data (b_algo b) (b_crc b) = Inr True) (b_reserved b)
                 ''Checked''])
        \<and> detract_loop name f temp removed
            = Inr (if block_filename b \<noteq> name then temp @ block_header_bytes b n @ data
                   else temp, removed \<or> block_filename b = name))"
  using scan_last_block [OF assms]
  by (intro exI [of _ "f\<lparr>pos := length pre + 62\<rparr>"]) simp

theorem payload_read_returns_what_is_left_witness:
  "\<exists>f1. read_file_block_header
        \<lparr>content = block_header_bytes
           \<lparr>b_name = 0x61 # replicate 39 0, b_version = 1, b_reserved = 0, b_crc = 7,
            b_algo = 1, b_payload = []\<rparr> 5 @ [1, 2], pos = 0\<rparr>
      = Inr (([97], 5, 7, 1, 0), f1)
     \<and> fst (file_read 5 f1) = [1, 2] \<and> pos (snd (file_read 5 f1)) = pos f1 + 2"
proof -
  define B where "B = \<lparr>b_name = 0x61 # replicate 39 0, b_version = 1, b_reserved = 0,
      b_crc = 7, b_algo = 1, b_payload = ([] :: bytes)\<rparr>"
  define F where "F = \<lparr>content = block_header_bytes B 5 @ [1, 2], pos = 0\<rparr>"
  have wf: "wf_block B" and nm: "block_filename B = [97]"
    by (simp_all add: B_def wf_block_def block_filename_def)
  have c: "content F = [] @ block_header_bytes B 5 @ [1, 2]" and p: "pos F = length ([] :: bytes)"
    by (simp_all add: F_def)
  have n: "(5 :: nat) < 4294967296" by simp
  have "\<exists>f1. read_file_block_header F = Inr (([97], 5, 7, 1, 0), f1)
     \<and> fst (file_read 5 f1) = [1, 2] \<and> pos (snd (file_read 5 f1)) = pos f1 + 2"
    using payload_read_returns_what_is_left [OF wf n c p, of Some "[]" "[]" "[]" False] nm
    by (auto simp: B_def)
  then show ?thesis unfolding F_def B_def .
qed

theorem truncated_payload_raises_nothing:
  "check_rch Some
     \<lparr>files = [[114] \<mapsto> write_rch_header [] @ block_header_bytes
          \<lparr>b_name = 0x61 # replicate 39 0, b_version = 1, b_reserved = 0, b_crc = 7,
           b_algo = 1, b_payload = []\<rparr> 5 @ [1, 2]],
      stdin = [], stdout = []\<rparr> [114]
   = Inr [\<lparr>r_filename = [97], r_size = 5, r_crc32 = 7, r_encoding = ''XOR255'',
           r_crc_passed = False, r_timestamp = 0, r_status = ''Checked''\<rparr>]"
proof -
  define B where "B = \<lparr>b_name = 0x61 # replicate 39 0, b_version = 1, b_reserved = 0,
      b_crc = 7, b_algo = 1, b_payload = ([] :: bytes)\<rparr>"
  define F where "F = \<lparr>content = write_rch_header [] @ block_header_bytes B 5 @ [1, 2], pos = 0\<rparr>"
  have wf: "wf_block B" and nm: "block_filename B = [97]"
    by (simp_all add: B_def wf_block_def block_filename_def)
  have h: "read_rch_header F = Inr (F\<lparr>pos := 28\<rparr>)"
    by (rule read_rch_header_ok) (simp_all add: F_def)
  have c: "content (F\<lparr>pos := 28\<rparr>) = write_rch_header [] @ block_header_bytes B 5 @ [1, 2]"
    and p: "pos (F\<lparr>pos := 28\<rparr>) = length (write_rch_header [])"
    by (simp_all add: F_def write_rch_header_def RCH_MAGIC_def length_pack_u32)
  have n: "(5 :: nat) < 4294967296" by simp
  have v: "verify_crc Some [1, 2] (b_algo B) (b_crc B) \<noteq> Inr True"
    using crc_examples(2)
    by (simp add: B_def verify_crc_def check_crc_def ENCODING_BZIP2_def Let_def)
  have "check_loop Some (F\<lparr>pos := 28\<rparr>) []
      = Inr [create_result_entry (sanitize_filename [97]) 5 7 1 False 0 ''Checked'']"
    using scan_last_block(3) [OF wf n c p, of Some "[]"] v nm by (simp add: B_def)
  then have "check_rch Some \<lparr>files = [[114] \<mapsto> content F], stdin = [], stdout = []\<rparr> [114]
      = Inr [create_result_entry [97] 5 7 1 False 0 ''Checked'']"
    using h by (simp add: check_rch_def open_rb_def dash_def F_def sanitize_plain_name)
  then show ?thesis
    by (simp add: F_def B_def create_result_entry_def get_encoding_name_def ENCODING_BZIP2_def
        ENCODING_XOR255_LZW_def ENCODING_XOR255_def)
qed

subsection \<open>Forced extraction\<close>

lemma unpack_failed_block:
  assumes wf: "wf_block b" and c: "content f = pre @ block_bytes b" and p: "pos f = length pre"
    and bad: "process_file_data d (b_payload b) (b_algo b) (b_crc b) = Inl e"
  shows "unpack_loop d self out [] f w rs
    = Inr (rs @ [create_result_entry (sanitize_filename (block_filename b))
             (length (b_payload b)) (b_crc b) (b_algo b) False (b_reserved b) ''Failed''], w)"
proof -
  have c': "content f = pre @ block_bytes b @ []" using c by simp
  note rb = read_block [OF wf c' p]
  define f2 where "f2 = f\<lparr>pos := length pre + length (block_bytes b)\<rparr>"
  have "length (content f2) \<le> pos f2" by (simp add: f2_def c)
  then have "read_file_block_header f2 = Inl ValueError" by (rule read_at_end)
  then have stop: "\<And>w' rs'. unpack_loop d self out [] f2 w' rs' = Inr (rs', w')"
    by (subst unpack_loop.simps) simp
  have e: "e = ValueError" using bad by (rule process_file_data_error)
  show ?thesis
    by (subst unpack_loop.simps) (simp add: rb(1) rb(2) f2_def [symmetric] bad e stop Let_def)
qed

text \<open>
  Claim C2, at an input where the code departs from it. The archive holds one block,
  named \<open>a\<close>, algorithm 1, payload \<open>FE FD\<close> and a stored checksum that is not the one of
  the payload. With \<open>force\<close> set, \<open>unpack\<close> still records the block as \<open>Failed\<close> and
  writes nothing: \<open>check_crc\<close> raises on the mismatch, so \<open>_process_file_data\<close> never
  returns a false verdict and the test of the force flag is not reached.
\<close>

theorem force_does_not_extract:
  "unpack_rch Some \<lparr>encoding_algorithm = ENCODING_BZIP2, compression_level = 9, force = True\<rparr>
     \<lparr>files = [[114] \<mapsto> write_rch_header [] @ block_bytes
          \<lparr>b_name = 0x61 # replicate 39 0, b_version = 1, b_reserved = 0, b_crc = 7,
           b_algo = 1, b_payload = [254, 253]\<rparr>],
      stdin = [], stdout = []\<rparr> [114] [111] []
   = Inr ([\<lparr>r_filename = [97], r_size = 2, r_crc32 = 7, r_encoding = ''XOR255'',
            r_crc_passed = False, r_timestamp = 0, r_status = ''Failed''\<rparr>],
          \<lparr>files = [[114] \<mapsto> write_rch_header [] @ block_bytes
               \<lparr>b_name = 0x61 # replicate 39 0, b_version = 1, b_reserved = 0, b_crc = 7,
                b_algo = 1, b_payload = [254, 253]\<rparr>],
           stdin = [], stdout = []\<rparr>)"
proof -
  define B where "B = \<lparr>b_name = 0x61 # replicate 39 0, b_version = 1, b_reserved = 0,
      b_crc = 7, b_algo = 1, b_payload = [254, 253 :: byte]\<rparr>"
  define F where "F = \<lparr>content = write_rch_header [] @ block_bytes B, pos = 0\<rparr>"
  define W where "W = \<lparr>files = [[114] \<mapsto> content F], stdin = [], stdout = []\<rparr>"
  define self where
    "self = \<lparr>encoding_algorithm = ENCODING_BZIP2, compression_level = 9, force = True\<rparr>"
  have wf: "wf_block B" and nm: "block_filename B = [97]"
    by (simp_all add: B_def wf_block_def block_filename_def)
  have h: "read_rch_header F = Inr (F\<lparr>pos := 28\<rparr>)"
    by (rule read_rch_header_ok) (simp_all add: F_def)
  have c: "content (F\<lparr>pos := 28\<rparr>) = write_rch_header [] @ block_bytes B"
    and p: "pos (F\<lparr>pos := 28\<rparr>) = length (write_rch_header [])"
    by (simp_all add: F_def write_rch_header_def RCH_MAGIC_def length_pack_u32)
  have bad: "process_file_data Some (b_payload B) (b_algo B) (b_crc B) = Inl ValueError"
    using crc_examples(1)
    by (simp add: B_def process_file_data_def decode_data_def check_crc_def Let_def
        ENCODING_BZIP2_def ENCODING_XOR255_LZW_def ENCODING_XOR255_def)
  have "unpack_loop Some self [111] [] (F\<lparr>pos := 28\<rparr>) W []
      = Inr ([create_result_entry (sanitize_filename [97]) 2 7 1 False 0 ''Failed''], W)"
    using unpack_failed_block [OF wf c p bad, of self "[111]" W "[]"] nm
    by (simp add: B_def numeral_2_eq_2)
  then have "unpack_rch Some self W [114] [111] []
      = Inr ([create_result_entry [97] 2 7 1 False 0 ''Failed''], W)"
    using h by (simp add: unpack_rch_def open_rb_def dash_def W_def F_def sanitize_plain_name)
  then show ?thesis
    by (simp add: W_def F_def B_def self_def create_result_entry_def get_encoding_name_def
        ENCODING_BZIP2_def ENCODING_XOR255_LZW_def ENCODING_XOR255_def)
qed

subsection \<open>Which inputs raise \<open>KeyError\<close>\<close>

lemma decode_loop_error: "decode_loop st s acc codes = Inl e \<Longrightarrow> e = ValueError"
proof (induction codes arbitrary: st s acc)
  case Nil
  then show ?case by simp
next
  case (Cons code codes)
  show ?case
  proof (cases "get_entry st code s")
    case (Inl e')
    then have "e' = ValueError"
      by (auto simp: get_entry_def split: option.splits if_splits)
    then show ?thesis using Cons.prems Inl by simp
  next
    case (Inr entry)
    then show ?thesis using Cons.prems Cons.IH by simp
  qed
qed

lemma decode_KeyError_iff:
  "LZWDecompressor_decode encoded_data = Inl KeyError
    \<longleftrightarrow> (\<exists>code codes. from_bytes encoded_data = code # codes \<and> 256 \<le> code)"
proof (cases "from_bytes encoded_data")
  case Nil
  then show ?thesis by (simp add: LZWDecompressor_decode_def)
next
  case (Cons code codes)
  show ?thesis
  proof (cases "code < 256")
    case True
    then have r: "reverse_dictionary reset_dictionary code = Some [word_of_nat code]"
      by (simp add: reset_dictionary_def)
    have "decode_loop reset_dictionary [word_of_nat code] [word_of_nat code] codes \<noteq> Inl KeyError"
      using decode_loop_error by fastforce
    then show ?thesis
      using Cons True r by (auto simp: LZWDecompressor_decode_def split: sum.splits)
  next
    case False
    then have "reverse_dictionary reset_dictionary code = None"
      by (simp add: reset_dictionary_def)
    then show ?thesis using Cons False by (simp add: LZWDecompressor_decode_def)
  qed
qed

end
